theory Spec2Isabelle
  imports Main "HOL-Library.Multiset"
begin

section \<open>Grid model shared by the Wumpus programs\<close>

text \<open>
  The programs store one string per grid cell (\<^verbatim>\<open>"A"\<close>, \<^verbatim>\<open>"W"\<close>, \<^verbatim>\<open>"G"\<close>, \<^verbatim>\<open>"P"\<close>,
  \<^verbatim>\<open>"_"\<close>, \<^verbatim>\<open>"T"\<close>, \<^verbatim>\<open>"O"\<close>, \<^verbatim>\<open>"X"\<close>, \<^verbatim>\<open>"TP"\<close>); the constants naming them become
  the constructors of \<open>entity\<close>. A grid is a list of rows, a cell a pair of Python
  integers \<open>(row, col)\<close>. The module constant \<^verbatim>\<open>GRID_SIZE\<close> (10 in every Wumpus file) is
  the parameter \<open>gs\<close> of the functions that read it.
\<close>

datatype entity = AGENT | WUMPUS | GOLD | PIT | EMPTY | TRAIL | OBSTACLE | TRAP | TELEPORT

datatype error = IndexError | KeyError | ValueError

type_synonym cell = "int \<times> int"

type_synonym grid = "entity list list"

text \<open>Python list indexing: a negative index counts from the end, out of range raises.\<close>

definition py_index :: "'a list \<Rightarrow> int \<Rightarrow> error + 'a" where
  "py_index xs i =
     (if 0 \<le> i \<and> i < int (length xs) then Inr (xs ! nat i)
      else if i < 0 \<and> - int (length xs) \<le> i then Inr (xs ! nat (int (length xs) + i))
      else Inl IndexError)"

text \<open>\<^verbatim>\<open>grid[r][c]\<close>\<close>

definition grid_get :: "grid \<Rightarrow> int \<Rightarrow> int \<Rightarrow> error + entity" where
  "grid_get g r c = (case py_index g r of Inl e \<Rightarrow> Inl e | Inr row \<Rightarrow> py_index row c)"

text \<open>A grid that has at least \<open>gs\<close> rows of at least \<open>gs\<close> columns each.\<close>

definition grid_ok :: "int \<Rightarrow> grid \<Rightarrow> bool" where
  "grid_ok gs g = (gs \<le> int (length g) \<and> list_all (\<lambda>row. gs \<le> int (length row)) (take (nat gs) g))"

section \<open>Breadth-first search of \<^verbatim>\<open>wumpus3.py\<close>\<close>

text \<open>
  \<^verbatim>\<open>
  for dx, dy in [(-1, 0), (1, 0), (0, -1), (0, 1)]:
      nx, ny = x + dx, y + dy
      if (0 <= nx < GRID_SIZE and 0 <= ny < GRID_SIZE and
          grid[nx][ny] != PIT and grid[nx][ny] != WUMPUS):
          queue.append(((nx, ny), path + [(x, y)]))
  \<close>
  \<open>bfs_scan\<close> collects, in the order of the loop, the cells that the loop appends.
\<close>

fun bfs_scan :: "int \<Rightarrow> grid \<Rightarrow> cell \<Rightarrow> (int \<times> int) list \<Rightarrow> error + cell list" where
  "bfs_scan gs g (x, y) [] = Inr []"
| "bfs_scan gs g (x, y) ((dx, dy) # ds) =
     (let nx = x + dx; ny = y + dy in
      if 0 \<le> nx \<and> nx < gs \<and> 0 \<le> ny \<and> ny < gs then
        (case grid_get g nx ny of
           Inl e \<Rightarrow> Inl e
         | Inr k \<Rightarrow>
             (case bfs_scan gs g (x, y) ds of
                Inl e \<Rightarrow> Inl e
              | Inr ns \<Rightarrow> Inr (if k \<noteq> PIT \<and> k \<noteq> WUMPUS then (nx, ny) # ns else ns)))
      else bfs_scan gs g (x, y) ds)"

definition bfs_dirs :: "(int \<times> int) list" where
  "bfs_dirs = [(-1, 0), (1, 0), (0, -1), (0, 1)]"

definition bfs_neighbors :: "int \<Rightarrow> grid \<Rightarrow> cell \<Rightarrow> error + cell list" where
  "bfs_neighbors gs g c = bfs_scan gs g c bfs_dirs"

text \<open>The cells inside the \<open>gs \<times> gs\<close> square, as a finite set.\<close>

definition in_bounds :: "int \<Rightarrow> cell set" where
  "in_bounds gs = {0..<gs} \<times> {0..<gs}"

lemma finite_in_bounds: "finite (in_bounds gs)"
  by (simp add: in_bounds_def)

lemma bfs_scan_in_bounds:
  "bfs_scan gs g c ds = Inr ns \<Longrightarrow> set ns \<subseteq> in_bounds gs"
proof (induction ds arbitrary: ns)
  case Nil
  then show ?case by (cases c) simp
next
  case (Cons d ds)
  obtain x y where c: "c = (x, y)" by (cases c)
  obtain dx dy where d: "d = (dx, dy)" by (cases d)
  from Cons.prems Cons.IH show ?case
    unfolding c d
    by (auto simp: Let_def in_bounds_def split: if_splits sum.splits)
qed

lemma bfs_scan_length: "bfs_scan gs g c ds = Inr ns \<Longrightarrow> length ns \<le> length ds"
proof (induction ds arbitrary: ns)
  case Nil
  then show ?case by (cases c) simp
next
  case (Cons d ds)
  obtain x y where c: "c = (x, y)" by (cases c)
  obtain dx dy where d: "d = (dx, dy)" by (cases d)
  from Cons.prems Cons.IH show ?case
    unfolding c d
    by (fastforce simp: Let_def split: if_splits sum.splits)
qed

lemma bfs_neighbors_in_bounds: "bfs_neighbors gs g c = Inr ns \<Longrightarrow> set ns \<subseteq> in_bounds gs"
  unfolding bfs_neighbors_def by (rule bfs_scan_in_bounds)

lemma bfs_neighbors_length: "bfs_neighbors gs g c = Inr ns \<Longrightarrow> length ns \<le> 4"
  unfolding bfs_neighbors_def using bfs_scan_length [of gs g c bfs_dirs ns]
  by (simp add: bfs_dirs_def)

text \<open>
  \<^verbatim>\<open>
  def bfs_search(grid, start, goal):
      queue = deque([(start, [])])
      visited = set()
      while queue:
          (x, y), path = queue.popleft()
          if (x, y) == goal:
              return path + [(x, y)]
          if (x, y) in visited:
              continue
          visited.add((x, y))
          for dx, dy in ...: ...
      return []
  \<close>
  The loop is \<open>bfs_loop\<close> on the queue and the visited set; an \<^verbatim>\<open>IndexError\<close> of a grid
  read leaves the function at once.
\<close>

function bfs_loop ::
  "int \<Rightarrow> grid \<Rightarrow> cell \<Rightarrow> (cell \<times> cell list) list \<Rightarrow> cell set \<Rightarrow> error + cell list" where
  "bfs_loop gs g goal [] visited = Inr []"
| "bfs_loop gs g goal ((c, path) # queue) visited =
     (if c = goal then Inr (path @ [c])
      else if c \<in> visited then bfs_loop gs g goal queue visited
      else (case bfs_neighbors gs g c of
              Inl e \<Rightarrow> Inl e
            | Inr ns \<Rightarrow>
                bfs_loop gs g goal (queue @ map (\<lambda>n. (n, path @ [c])) ns) (insert c visited)))"
  by pat_completeness auto

definition bfs_measure :: "int \<times> grid \<times> cell \<times> (cell \<times> cell list) list \<times> cell set \<Rightarrow> nat" where
  "bfs_measure = (\<lambda>(gs, g, goal, queue, visited).
     5 * card ((in_bounds gs \<union> fst ` set queue) - visited) + length queue)"

termination bfs_loop
proof (relation "measure bfs_measure")
  show "wf (measure bfs_measure)" by simp
next
  fix gs :: int and g :: grid and goal c :: cell and path :: "cell list"
    and queue :: "(cell \<times> cell list) list" and visited :: "cell set"
  assume "c \<noteq> goal" "c \<in> visited"
  have "(in_bounds gs \<union> fst ` set queue) - visited
      = (in_bounds gs \<union> fst ` set ((c, path) # queue)) - visited"
    using \<open>c \<in> visited\<close> by auto
  then show "((gs, g, goal, queue, visited), (gs, g, goal, (c, path) # queue, visited))
      \<in> measure bfs_measure"
    by (simp add: bfs_measure_def)
next
  fix gs :: int and g :: grid and goal c :: cell and path :: "cell list"
    and queue :: "(cell \<times> cell list) list" and visited :: "cell set" and ns :: "cell list"
  assume c: "c \<noteq> goal" "c \<notin> visited" and ns: "bfs_neighbors gs g c = Inr ns"
  let ?old = "(in_bounds gs \<union> fst ` set ((c, path) # queue)) - visited"
  let ?new = "(in_bounds gs \<union> fst ` set (queue @ map (\<lambda>n. (n, path @ [c])) ns)) - insert c visited"
  have fin: "finite ?old" by (simp add: finite_in_bounds)
  have sub: "set ns \<subseteq> in_bounds gs" using ns by (rule bfs_neighbors_in_bounds)
  have "fst ` set (map (\<lambda>n. (n, path @ [c])) ns) = set ns" by force
  then have "?new \<subseteq> ?old - {c}" using sub by auto
  moreover have "c \<in> ?old" using c by simp
  ultimately have "?new \<subset> ?old" by blast
  then have "card ?new < card ?old" using fin by (simp add: psubset_card_mono)
  moreover have "length ns \<le> 4" using ns by (rule bfs_neighbors_length)
  ultimately show "((gs, g, goal, queue @ map (\<lambda>n. (n, path @ [c])) ns, insert c visited),
       (gs, g, goal, (c, path) # queue, visited)) \<in> measure bfs_measure"
    by (simp add: bfs_measure_def)
qed

definition bfs_search :: "int \<Rightarrow> grid \<Rightarrow> cell \<Rightarrow> cell \<Rightarrow> error + cell list" where
  "bfs_search gs g start goal = bfs_loop gs g goal [(start, [])] {}"

section \<open>The A* search of \<^verbatim>\<open>wumpus4.py\<close> (\<^verbatim>\<open>GameManager.calculate_path\<close>)\<close>

text \<open>\<^verbatim>\<open>abs(a[0] - b[0]) + abs(a[1] - b[1])\<close>\<close>

definition heuristic :: "cell \<Rightarrow> cell \<Rightarrow> int" where
  "heuristic a b = \<bar>fst a - fst b\<bar> + \<bar>snd a - snd b\<bar>"

text \<open>
  \<^verbatim>\<open>
  for dr, dc in [(0, 1), (1, 0), (0, -1), (-1, 0)]:
      r, c = row + dr, col + dc
      if 0 <= r < GRID_SIZE and 0 <= c < GRID_SIZE:
          if self.grid[r][c] not in [OBSTACLE, WUMPUS]:
              neighbors.append((r, c))
  \<close>
\<close>

fun astar_scan :: "int \<Rightarrow> grid \<Rightarrow> cell \<Rightarrow> (int \<times> int) list \<Rightarrow> error + cell list" where
  "astar_scan gs g (row, col) [] = Inr []"
| "astar_scan gs g (row, col) ((dr, dc) # ds) =
     (let r = row + dr; c = col + dc in
      if 0 \<le> r \<and> r < gs \<and> 0 \<le> c \<and> c < gs then
        (case grid_get g r c of
           Inl e \<Rightarrow> Inl e
         | Inr k \<Rightarrow>
             (case astar_scan gs g (row, col) ds of
                Inl e \<Rightarrow> Inl e
              | Inr ns \<Rightarrow> Inr (if k \<notin> {OBSTACLE, WUMPUS} then (r, c) # ns else ns)))
      else astar_scan gs g (row, col) ds)"

definition astar_dirs :: "(int \<times> int) list" where
  "astar_dirs = [(0, 1), (1, 0), (0, -1), (-1, 0)]"

definition get_neighbors :: "int \<Rightarrow> grid \<Rightarrow> cell \<Rightarrow> error + cell list" where
  "get_neighbors gs g pos = astar_scan gs g pos astar_dirs"

text \<open>
  The variables of the search: the open list of \<open>(f, cell)\<close> pairs and the three
  dictionaries.
\<close>

record astar_state =
  open_set :: "(int \<times> cell) list"
  came_from :: "cell \<rightharpoonup> cell"
  g_score :: "cell \<rightharpoonup> int"
  f_score :: "cell \<rightharpoonup> int"

text \<open>
  \<^verbatim>\<open>min(open_set, key=lambda x: x[0])\<close>: the first entry among those of least key. The
  list is never empty where the loop calls it; Python raises \<^verbatim>\<open>ValueError\<close> on an
  empty one.
\<close>

fun min_entry :: "(int \<times> cell) list \<Rightarrow> error + (int \<times> cell)" where
  "min_entry [] = Inl ValueError"
| "min_entry [x] = Inr x"
| "min_entry (x # xs) =
     (case min_entry xs of Inl e \<Rightarrow> Inl e | Inr m \<Rightarrow> Inr (if fst x \<le> fst m then x else m))"

text \<open>
  \<^verbatim>\<open>
  teleport_penalty = 0
  if self.grid[neighbor[0]][neighbor[1]] == TELEPORT:
      teleport_penalty = 1
  tentative_g = g_score[current] + 1 + teleport_penalty
  \<close>
\<close>

definition teleport_penalty :: "entity \<Rightarrow> int" where
  "teleport_penalty k = (if k = TELEPORT then 1 else 0)"

definition tentative_g :: "grid \<Rightarrow> (cell \<rightharpoonup> int) \<Rightarrow> cell \<Rightarrow> cell \<Rightarrow> error + int" where
  "tentative_g g gsc current neighbor =
     (case grid_get g (fst neighbor) (snd neighbor) of
        Inl e \<Rightarrow> Inl e
      | Inr k \<Rightarrow>
          (case gsc current of
             None \<Rightarrow> Inl KeyError
           | Some gc \<Rightarrow> Inr (gc + 1 + teleport_penalty k)))"

text \<open>
  One round of the \<^verbatim>\<open>for neighbor in get_neighbors(current)\<close> loop:
  \<^verbatim>\<open>
  if neighbor not in g_score or tentative_g < g_score[neighbor]:
      came_from[neighbor] = current
      g_score[neighbor] = tentative_g
      f_score[neighbor] = tentative_g + heuristic(neighbor, self.gold_pos)
      if not any(neighbor == x[1] for x in open_set):
          open_set.append((f_score[neighbor], neighbor))
  \<close>
\<close>

definition relax :: "grid \<Rightarrow> cell \<Rightarrow> cell \<Rightarrow> astar_state \<Rightarrow> cell \<Rightarrow> error + astar_state" where
  "relax g gold current st neighbor =
     (case tentative_g g (g_score st) current neighbor of
        Inl e \<Rightarrow> Inl e
      | Inr t \<Rightarrow>
          (if (case g_score st neighbor of None \<Rightarrow> True | Some gn \<Rightarrow> t < gn) then
             (let f = t + heuristic neighbor gold in
              Inr \<lparr> open_set =
                      (if list_ex (\<lambda>x. neighbor = snd x) (open_set st) then open_set st
                       else open_set st @ [(f, neighbor)]),
                    came_from = (came_from st)(neighbor \<mapsto> current),
                    g_score = (g_score st)(neighbor \<mapsto> t),
                    f_score = (f_score st)(neighbor \<mapsto> f) \<rparr>)
           else Inr st))"

fun relax_all :: "grid \<Rightarrow> cell \<Rightarrow> cell \<Rightarrow> astar_state \<Rightarrow> cell list \<Rightarrow> error + astar_state" where
  "relax_all g gold current st [] = Inr st"
| "relax_all g gold current st (n # ns) =
     (case relax g gold current st n of
        Inl e \<Rightarrow> Inl e
      | Inr st' \<Rightarrow> relax_all g gold current st' ns)"

text \<open>
  \<^verbatim>\<open>
  path = []
  while current in came_from:
      path.append(current)
      current = came_from[current]
  path.append(self.agent_pos)
  path.reverse()
  \<close>
  The \<^verbatim>\<open>while\<close> follows the \<open>came_from\<close> links; on a cycle of links it never ends, which is
  the value \<open>None\<close>.
\<close>

partial_function (option) reconstruct_loop ::
  "(cell \<rightharpoonup> cell) \<Rightarrow> cell \<Rightarrow> cell list \<Rightarrow> cell list option" where
  "reconstruct_loop cf current path =
     (case cf current of
        None \<Rightarrow> Some path
      | Some p \<Rightarrow> reconstruct_loop cf p (path @ [current]))"

declare reconstruct_loop.simps [code]

definition reconstruct :: "(cell \<rightharpoonup> cell) \<Rightarrow> cell \<Rightarrow> cell \<Rightarrow> cell list option" where
  "reconstruct cf agent_pos current =
     (case reconstruct_loop cf current [] of
        None \<Rightarrow> None
      | Some path \<Rightarrow> Some (rev (path @ [agent_pos])))"

text \<open>
  The \<^verbatim>\<open>while open_set:\<close> loop. A run that never leaves the loop is the value \<open>None\<close>;
  \<open>Some (Inl e)\<close> is an exception, \<open>Some (Inr path)\<close> the returned path.
\<close>

partial_function (option) astar_loop ::
  "int \<Rightarrow> grid \<Rightarrow> cell \<Rightarrow> cell \<Rightarrow> astar_state \<Rightarrow> (error + cell list) option" where
  "astar_loop gs g agent_pos gold_pos st =
     (case min_entry (open_set st) of
        Inl e \<Rightarrow> Some (Inr [])
      | Inr m \<Rightarrow>
          (let current = snd m;
               st1 = st\<lparr>open_set := filter (\<lambda>x. snd x \<noteq> current) (open_set st)\<rparr>
           in if current = gold_pos then
                (case reconstruct (came_from st1) agent_pos current of
                   None \<Rightarrow> None
                 | Some path \<Rightarrow> Some (Inr path))
              else
                (case get_neighbors gs g current of
                   Inl e \<Rightarrow> Some (Inl e)
                 | Inr ns \<Rightarrow>
                     (case relax_all g gold_pos current st1 ns of
                        Inl e \<Rightarrow> Some (Inl e)
                      | Inr st2 \<Rightarrow> astar_loop gs g agent_pos gold_pos st2))))"

declare astar_loop.simps [code]

definition astar_init :: "cell \<Rightarrow> cell \<Rightarrow> astar_state" where
  "astar_init agent_pos gold_pos =
     \<lparr> open_set = [(0, agent_pos)],
       came_from = Map.empty,
       g_score = [agent_pos \<mapsto> 0],
       f_score = [agent_pos \<mapsto> heuristic agent_pos gold_pos] \<rparr>"

text \<open>
  \<^verbatim>\<open>calculate_path\<close> with the attributes it reads as arguments: \<^verbatim>\<open>self.agent_pos\<close> and
  \<^verbatim>\<open>self.gold_pos\<close> are \<^verbatim>\<open>None\<close> or a pair, \<^verbatim>\<open>self.grid\<close> is \<^verbatim>\<open>None\<close> or a list of rows
  (the empty list is as false as \<^verbatim>\<open>None\<close>).
\<close>

definition astar :: "int \<Rightarrow> grid \<Rightarrow> cell \<Rightarrow> cell \<Rightarrow> (error + cell list) option" where
  "astar gs g agent_pos gold_pos = astar_loop gs g agent_pos gold_pos (astar_init agent_pos gold_pos)"

definition calculate_path ::
  "int \<Rightarrow> grid option \<Rightarrow> cell option \<Rightarrow> cell option \<Rightarrow> (error + cell list) option" where
  "calculate_path gs grid agent_pos gold_pos =
     (case (agent_pos, gold_pos, grid) of
        (Some a, Some t, Some g) \<Rightarrow> (if g = [] then Some (Inr []) else astar gs g a t)
      | _ \<Rightarrow> Some (Inr []))"

section \<open>Reading a well-formed grid never fails\<close>

lemma grid_get_ok:
  assumes "grid_ok gs g" and "(r, c) \<in> in_bounds gs"
  shows "grid_get g r c = Inr (g ! nat r ! nat c)"
proof -
  from assms(2) have r: "0 \<le> r" "r < gs" and c: "0 \<le> c" "c < gs"
    by (auto simp: in_bounds_def)
  from assms(1) have len: "gs \<le> int (length g)"
    and rows: "\<forall>row \<in> set (take (nat gs) g). gs \<le> int (length row)"
    by (auto simp: grid_ok_def list_all_iff)
  have "nat r < length (take (nat gs) g)" using r len by simp
  then have "take (nat gs) g ! nat r \<in> set (take (nat gs) g)" by (rule nth_mem)
  moreover have "take (nat gs) g ! nat r = g ! nat r" using r by simp
  ultimately have "gs \<le> int (length (g ! nat r))" using rows by auto
  then show ?thesis using r c len by (simp add: grid_get_def py_index_def)
qed

definition shift :: "cell \<Rightarrow> int \<times> int \<Rightarrow> cell" where
  "shift c d = (fst c + fst d, snd c + snd d)"

text \<open>Two cells are adjacent when they differ by one step in one coordinate.\<close>

definition adjacent :: "cell \<Rightarrow> cell \<Rightarrow> bool" where
  "adjacent a b = (\<bar>fst a - fst b\<bar> + \<bar>snd a - snd b\<bar> = 1)"

lemma adjacent_bfs_dirs: "adjacent c nb \<longleftrightarrow> (\<exists>d \<in> set bfs_dirs. nb = shift c d)"
  unfolding adjacent_def bfs_dirs_def shift_def
  by (cases c; cases nb) (simp, linarith)

lemma adjacent_astar_dirs: "adjacent c nb \<longleftrightarrow> (\<exists>d \<in> set astar_dirs. nb = shift c d)"
  unfolding adjacent_def astar_dirs_def shift_def
  by (cases c; cases nb) (simp, linarith)

lemma bfs_scan_mem:
  assumes "bfs_scan gs g c ds = Inr ns"
  shows "nb \<in> set ns \<longleftrightarrow>
    (\<exists>d \<in> set ds. nb = shift c d) \<and> nb \<in> in_bounds gs \<and>
    (\<exists>k. grid_get g (fst nb) (snd nb) = Inr k \<and> k \<noteq> PIT \<and> k \<noteq> WUMPUS)"
  using assms
proof (induction ds arbitrary: ns)
  case Nil
  then show ?case by (cases c) simp
next
  case (Cons d ds)
  obtain x y where c: "c = (x, y)" by (cases c)
  obtain dx dy where d: "d = (dx, dy)" by (cases d)
  show ?case
  proof (cases "0 \<le> x + dx \<and> x + dx < gs \<and> 0 \<le> y + dy \<and> y + dy < gs")
    case False
    with Cons.prems have "bfs_scan gs g c ds = Inr ns" by (simp add: c d Let_def)
    from Cons.IH [OF this] False show ?thesis
      by (auto simp: c d shift_def in_bounds_def)
  next
    case True
    with Cons.prems obtain k ns' where k: "grid_get g (x + dx) (y + dy) = Inr k"
      and ns': "bfs_scan gs g c ds = Inr ns'"
      and ns: "ns = (if k \<noteq> PIT \<and> k \<noteq> WUMPUS then (x + dx, y + dy) # ns' else ns')"
      by (auto simp: c d Let_def split: sum.splits)
    from Cons.IH [OF ns'] True k ns show ?thesis
      by (auto simp: c d shift_def in_bounds_def)
  qed
qed

lemma astar_scan_mem:
  assumes "astar_scan gs g c ds = Inr ns"
  shows "nb \<in> set ns \<longleftrightarrow>
    (\<exists>d \<in> set ds. nb = shift c d) \<and> nb \<in> in_bounds gs \<and>
    (\<exists>k. grid_get g (fst nb) (snd nb) = Inr k \<and> k \<notin> {OBSTACLE, WUMPUS})"
  using assms
proof (induction ds arbitrary: ns)
  case Nil
  then show ?case by (cases c) simp
next
  case (Cons d ds)
  obtain x y where c: "c = (x, y)" by (cases c)
  obtain dx dy where d: "d = (dx, dy)" by (cases d)
  show ?case
  proof (cases "0 \<le> x + dx \<and> x + dx < gs \<and> 0 \<le> y + dy \<and> y + dy < gs")
    case False
    with Cons.prems have "astar_scan gs g c ds = Inr ns" by (simp add: c d Let_def)
    from Cons.IH [OF this] False show ?thesis
      by (auto simp: c d shift_def in_bounds_def)
  next
    case True
    with Cons.prems obtain k ns' where k: "grid_get g (x + dx) (y + dy) = Inr k"
      and ns': "astar_scan gs g c ds = Inr ns'"
      and ns: "ns = (if k \<notin> {OBSTACLE, WUMPUS} then (x + dx, y + dy) # ns' else ns')"
      by (auto simp: c d Let_def split: sum.splits)
    from Cons.IH [OF ns'] True k ns show ?thesis
      by (auto simp: c d shift_def in_bounds_def)
  qed
qed

lemma bfs_scan_ok: "grid_ok gs g \<Longrightarrow> \<exists>ns. bfs_scan gs g c ds = Inr ns"
proof (induction ds)
  case Nil
  then show ?case by (cases c) simp
next
  case (Cons d ds)
  obtain x y where c: "c = (x, y)" by (cases c)
  obtain dx dy where d: "d = (dx, dy)" by (cases d)
  from Cons obtain ns where ns: "bfs_scan gs g (x, y) ds = Inr ns" by (auto simp: c)
  show ?case
  proof (cases "0 \<le> x + dx \<and> x + dx < gs \<and> 0 \<le> y + dy \<and> y + dy < gs")
    case False
    with ns show ?thesis by (auto simp: c d Let_def)
  next
    case True
    then have "(x + dx, y + dy) \<in> in_bounds gs" by (simp add: in_bounds_def)
    from grid_get_ok [OF Cons.prems this] True ns show ?thesis
      by (simp add: c d Let_def)
  qed
qed

lemma astar_scan_ok: "grid_ok gs g \<Longrightarrow> \<exists>ns. astar_scan gs g c ds = Inr ns"
proof (induction ds)
  case Nil
  then show ?case by (cases c) simp
next
  case (Cons d ds)
  obtain x y where c: "c = (x, y)" by (cases c)
  obtain dx dy where d: "d = (dx, dy)" by (cases d)
  from Cons obtain ns where ns: "astar_scan gs g (x, y) ds = Inr ns" by (auto simp: c)
  show ?case
  proof (cases "0 \<le> x + dx \<and> x + dx < gs \<and> 0 \<le> y + dy \<and> y + dy < gs")
    case False
    with ns show ?thesis by (auto simp: c d Let_def)
  next
    case True
    then have "(x + dx, y + dy) \<in> in_bounds gs" by (simp add: in_bounds_def)
    from grid_get_ok [OF Cons.prems this] True ns show ?thesis
      by (simp add: c d Let_def)
  qed
qed

lemma bfs_neighbors_ok: "grid_ok gs g \<Longrightarrow> \<exists>ns. bfs_neighbors gs g c = Inr ns"
  unfolding bfs_neighbors_def by (rule bfs_scan_ok)

lemma get_neighbors_ok: "grid_ok gs g \<Longrightarrow> \<exists>ns. get_neighbors gs g c = Inr ns"
  unfolding get_neighbors_def by (rule astar_scan_ok)

lemma bfs_neighbors_mem:
  assumes "bfs_neighbors gs g c = Inr ns"
  shows "nb \<in> set ns \<longleftrightarrow> adjacent c nb \<and> nb \<in> in_bounds gs \<and>
    (\<exists>k. grid_get g (fst nb) (snd nb) = Inr k \<and> k \<noteq> PIT \<and> k \<noteq> WUMPUS)"
  using bfs_scan_mem [OF assms [unfolded bfs_neighbors_def], of nb]
  by (simp add: adjacent_bfs_dirs)

lemma get_neighbors_mem:
  assumes "get_neighbors gs g c = Inr ns"
  shows "nb \<in> set ns \<longleftrightarrow> adjacent c nb \<and> nb \<in> in_bounds gs \<and>
    (\<exists>k. grid_get g (fst nb) (snd nb) = Inr k \<and> k \<notin> {OBSTACLE, WUMPUS})"
  using astar_scan_mem [OF assms [unfolded get_neighbors_def], of nb]
  by (simp add: adjacent_astar_dirs)

section \<open>Which cells the two searches leave out\<close>

definition pit_grid :: grid where
  "pit_grid = [[AGENT, PIT], [OBSTACLE, GOLD]]"

text \<open>
  C2, as stated, fails for the breadth-first search of \<^verbatim>\<open>wumpus3.py\<close>: from \<open>(0, 0)\<close> it
  leaves out the pit at \<open>(0, 1)\<close> and walks onto the obstacle at \<open>(1, 0)\<close>.
\<close>

theorem bfs_skips_pit_counterexample:
  "bfs_neighbors 2 pit_grid (0, 0) = Inr [(1, 0)] \<and>
   grid_get pit_grid 0 1 = Inr PIT \<and> grid_get pit_grid 1 0 = Inr OBSTACLE"
  by (simp add: bfs_neighbors_def bfs_dirs_def pit_grid_def grid_get_def py_index_def)

text \<open>
  C2 (amended): on a well-formed grid, for a cell \<open>nb\<close> of the grid next to \<open>c\<close>, the A*
  search of \<^verbatim>\<open>wumpus4.py\<close> leaves \<open>nb\<close> out exactly when it holds an obstacle or a wumpus,
  and the breadth-first search of \<^verbatim>\<open>wumpus3.py\<close> leaves it out exactly when it holds a
  pit or a wumpus. Every other kind is traversed.
\<close>

theorem pathfinder_exclusion:
  assumes "grid_ok gs g" and "adjacent c nb" and "nb \<in> in_bounds gs"
  shows "\<exists>k ns ms. grid_get g (fst nb) (snd nb) = Inr k \<and>
           get_neighbors gs g c = Inr ns \<and> bfs_neighbors gs g c = Inr ms \<and>
           (nb \<notin> set ns \<longleftrightarrow> k = OBSTACLE \<or> k = WUMPUS) \<and>
           (nb \<notin> set ms \<longleftrightarrow> k = PIT \<or> k = WUMPUS)"
proof -
  obtain ns where ns: "get_neighbors gs g c = Inr ns"
    using get_neighbors_ok [OF assms(1)] by blast
  obtain ms where ms: "bfs_neighbors gs g c = Inr ms"
    using bfs_neighbors_ok [OF assms(1)] by blast
  have k: "grid_get g (fst nb) (snd nb) = Inr (g ! nat (fst nb) ! nat (snd nb))"
    using grid_get_ok [OF assms(1), of "fst nb" "snd nb"] assms(3) by simp
  show ?thesis
    using get_neighbors_mem [OF ns, of nb] bfs_neighbors_mem [OF ms, of nb] ns ms k assms(2,3)
    by auto
qed

theorem pathfinder_exclusion_witness:
  "grid_ok 2 pit_grid \<and> adjacent (0, 0) (0, 1) \<and> (0, 1) \<in> in_bounds 2 \<and>
   (\<exists>k ns ms. grid_get pit_grid (fst (0 :: int, 1 :: int)) (snd (0 :: int, 1 :: int)) = Inr k \<and>
      get_neighbors 2 pit_grid (0, 0) = Inr ns \<and> bfs_neighbors 2 pit_grid (0, 0) = Inr ms \<and>
      ((0, 1) \<notin> set ns \<longleftrightarrow> k = OBSTACLE \<or> k = WUMPUS) \<and>
      ((0, 1) \<notin> set ms \<longleftrightarrow> k = PIT \<or> k = WUMPUS))"
proof -
  have a: "grid_ok 2 pit_grid" by (simp add: grid_ok_def pit_grid_def)
  have b: "adjacent (0, 0) (0, 1)" by (simp add: adjacent_def)
  have c: "(0, 1) \<in> in_bounds 2" by (simp add: in_bounds_def)
  show ?thesis using a b c pathfinder_exclusion [OF a b c] by blast
qed

section \<open>The cost of a move in the A* search\<close>

text \<open>
  C4: the cost that \<^verbatim>\<open>calculate_path\<close> adds for a move from \<open>current\<close> onto \<open>nb\<close> is 2
  when \<open>nb\<close> holds a teleport and 1 otherwise; the teleport pairing
  (\<^verbatim>\<open>teleport_destinations\<close>) is not read. A cell that had no score yet gets exactly
  this score.
\<close>

theorem astar_edge_cost:
  assumes "grid_get g (fst nb) (snd nb) = Inr k" and "g_score st current = Some gc"
  shows "tentative_g g (g_score st) current nb = Inr (gc + (if k = TELEPORT then 2 else 1)) \<and>
         (g_score st nb = None \<longrightarrow>
            (\<exists>st'. relax g gold current st nb = Inr st' \<and>
                   g_score st' nb = Some (gc + (if k = TELEPORT then 2 else 1))))"
  using assms by (simp add: tentative_g_def teleport_penalty_def relax_def Let_def)

theorem astar_edge_cost_witness:
  "grid_get [[AGENT, TELEPORT], [EMPTY, GOLD]] (fst (0 :: int, 1 :: int)) (snd (0 :: int, 1 :: int))
     = Inr TELEPORT \<and>
   g_score (astar_init (0, 0) (1, 1)) (0, 0) = Some 0 \<and>
   tentative_g [[AGENT, TELEPORT], [EMPTY, GOLD]] (g_score (astar_init (0, 0) (1, 1))) (0, 0) (0, 1)
     = Inr 2"
proof -
  have a: "grid_get [[AGENT, TELEPORT], [EMPTY, GOLD]] (fst (0 :: int, 1 :: int)) (snd (0 :: int, 1 :: int))
     = Inr TELEPORT"
    by (simp add: grid_get_def py_index_def)
  have b: "g_score (astar_init (0, 0) (1, 1)) (0, 0) = Some 0"
    by (simp add: astar_init_def)
  show ?thesis using a b astar_edge_cost [OF a b, of "(1, 1)"] by simp
qed

section \<open>The 5 by 5 scenario\<close>

text \<open>
  Neither search takes the size of the grid: both test a neighbour against the module
  constant \<^verbatim>\<open>GRID_SIZE = 10\<close>. \<open>small_grid\<close> is a grid of 5 rows of 5 cells;
  \<open>scenario_grid\<close> is the grid of the programs, 10 rows of 10 cells, without obstacles,
  with the gold at \<open>(4, 4)\<close>, the far corner of its 5 by 5 square.
\<close>

definition small_grid :: grid where
  "small_grid =
     [[AGENT, EMPTY, EMPTY, EMPTY, EMPTY],
      [EMPTY, EMPTY, EMPTY, EMPTY, EMPTY],
      [EMPTY, EMPTY, EMPTY, EMPTY, EMPTY],
      [EMPTY, EMPTY, EMPTY, EMPTY, EMPTY],
      [EMPTY, EMPTY, EMPTY, EMPTY, GOLD]]"

definition scenario_grid :: grid where
  "scenario_grid =
     [[AGENT, EMPTY, EMPTY, EMPTY, EMPTY, EMPTY, EMPTY, EMPTY, EMPTY, EMPTY],
      [EMPTY, EMPTY, EMPTY, EMPTY, EMPTY, EMPTY, EMPTY, EMPTY, EMPTY, EMPTY],
      [EMPTY, EMPTY, EMPTY, EMPTY, EMPTY, EMPTY, EMPTY, EMPTY, EMPTY, EMPTY],
      [EMPTY, EMPTY, EMPTY, EMPTY, EMPTY, EMPTY, EMPTY, EMPTY, EMPTY, EMPTY],
      [EMPTY, EMPTY, EMPTY, EMPTY, GOLD, EMPTY, EMPTY, EMPTY, EMPTY, EMPTY],
      [EMPTY, EMPTY, EMPTY, EMPTY, EMPTY, EMPTY, EMPTY, EMPTY, EMPTY, EMPTY],
      [EMPTY, EMPTY, EMPTY, EMPTY, EMPTY, EMPTY, EMPTY, EMPTY, EMPTY, EMPTY],
      [EMPTY, EMPTY, EMPTY, EMPTY, EMPTY, EMPTY, EMPTY, EMPTY, EMPTY, EMPTY],
      [EMPTY, EMPTY, EMPTY, EMPTY, EMPTY, EMPTY, EMPTY, EMPTY, EMPTY, EMPTY],
      [EMPTY, EMPTY, EMPTY, EMPTY, EMPTY, EMPTY, EMPTY, EMPTY, EMPTY, EMPTY]]"

text \<open>
  C6, as stated, fails with \<^verbatim>\<open>GRID_SIZE = 10\<close>, the value of both programs. On a grid
  of 5 rows of 5 cells both searches read outside the grid (\<^verbatim>\<open>grid[5][0]\<close>,
  \<^verbatim>\<open>self.grid[0][5]\<close>) and raise \<^verbatim>\<open>IndexError\<close> before they reach \<open>(4, 4)\<close>; on the
  10 by 10 grid the path of the breadth-first search from \<open>(0, 0)\<close> to \<open>(4, 4)\<close> has
  9 cells, both ends counted, not 8.
\<close>

theorem scenario_bfs_counterexample:
  "bfs_search 10 small_grid (0, 0) (4, 4) = Inl IndexError \<and>
   astar 10 small_grid (0, 0) (4, 4) = Some (Inl IndexError) \<and>
   (case bfs_search 10 scenario_grid (0, 0) (4, 4) of
      Inl e \<Rightarrow> False
    | Inr p \<Rightarrow> length p = 9 \<and> length p \<noteq> 8)"
  by code_simp

text \<open>
  C6 (amended): with \<^verbatim>\<open>GRID_SIZE = 10\<close>, on the 10 by 10 grid without obstacles, from
  \<open>(0, 0)\<close> to \<open>(4, 4)\<close>, the breadth-first search returns a path of exactly 9 cells
  (8 moves), both ends counted, that stays in the 5 by 5 square, and the A* search
  returns a path of the same length.
\<close>

theorem scenario_paths:
  "bfs_search 10 scenario_grid (0, 0) (4, 4) =
     Inr [(0, 0), (1, 0), (2, 0), (3, 0), (4, 0), (4, 1), (4, 2), (4, 3), (4, 4)] \<and>
   astar 10 scenario_grid (0, 0) (4, 4) =
     Some (Inr [(0, 0), (0, 1), (0, 2), (0, 3), (0, 4), (1, 4), (2, 4), (3, 4), (4, 4)]) \<and>
   length [(0 :: int, 0 :: int), (1, 0), (2, 0), (3, 0), (4, 0), (4, 1), (4, 2), (4, 3), (4, 4)] = 9 \<and>
   length [(0 :: int, 0 :: int), (0, 1), (0, 2), (0, 3), (0, 4), (1, 4), (2, 4), (3, 4), (4, 4)] = 9"
  by code_simp

section \<open>Paths and the level invariant of a breadth-first search\<close>

text \<open>
  A path is a non-empty list of cells from \<open>start\<close> to \<open>goal\<close> in which every cell is
  followed by one that the step relation allows. Its number of moves is its length
  minus one.
\<close>

definition valid_path :: "('a \<Rightarrow> 'a \<Rightarrow> bool) \<Rightarrow> 'a \<Rightarrow> 'a \<Rightarrow> 'a list \<Rightarrow> bool" where
  "valid_path step start goal p =
     (p \<noteq> [] \<and> hd p = start \<and> last p = goal \<and> successively step p)"

lemma valid_path_snoc:
  "valid_path step s c q \<Longrightarrow> step c n \<Longrightarrow> valid_path step s n (q @ [n])"
  by (auto simp: valid_path_def successively_append_iff)

lemma valid_path_butlast:
  assumes "valid_path step s v q" and "2 \<le> length q"
  shows "\<exists>u. valid_path step s u (butlast q) \<and> step u v"
proof -
  from assms have ne: "q \<noteq> []" and bl: "butlast q \<noteq> []"
    by (auto simp: valid_path_def butlast_conv_take)
  have q: "q = butlast q @ [last q]" using ne by simp
  from assms(1) have "successively step (butlast q @ [last q])"
    using q by (simp add: valid_path_def)
  then have s: "successively step (butlast q)" and st: "step (last (butlast q)) (last q)"
    using bl by (auto simp: successively_append_iff)
  have "hd (butlast q) = hd q" using bl q by (metis hd_append2)
  with assms(1) s st bl show ?thesis
    by (auto simp: valid_path_def)
qed

lemma valid_path_length1: "valid_path step s v q \<Longrightarrow> length q = 1 \<Longrightarrow> v = s"
  by (cases q) (auto simp: valid_path_def)

text \<open>
  The queue of a breadth-first search, read as cells with their depths, and the set of
  cells that have been expanded. \<open>L\<close> is the depth of the level being expanded: the
  queue holds depths \<open>L\<close> and \<open>L + 1\<close> in this order, every cell that a path of at most
  \<open>L\<close> cells reaches is expanded, and every cell that a path of \<open>L + 1\<close> cells reaches
  is expanded or waits in the queue at depth \<open>L\<close>.
\<close>

definition lvl_inv ::
  "('a \<Rightarrow> 'a \<Rightarrow> bool) \<Rightarrow> 'a \<Rightarrow> 'a \<Rightarrow> ('a \<times> nat) list \<Rightarrow> 'a set \<Rightarrow> nat \<Rightarrow> bool" where
  "lvl_inv R start goal aq closed L =
     ((\<forall>e \<in> set aq. L \<le> snd e \<and> snd e \<le> L + 1) \<and>
      sorted (map snd aq) \<and>
      goal \<notin> closed \<and>
      (\<forall>v \<in> closed. \<forall>w. R v w \<longrightarrow> w \<in> closed \<or> w \<in> fst ` set aq) \<and>
      (\<forall>q v. valid_path R start v q \<and> length q \<le> L \<longrightarrow> v \<in> closed) \<and>
      (\<forall>q v. valid_path R start v q \<and> length q = L + 1 \<longrightarrow>
          v \<in> closed \<or> (v, L) \<in> set aq))"

lemma sorted_const_map: "sorted (map (\<lambda>n. k :: nat) ns)"
  by (induction ns) auto

lemma lvl_inv_init: "lvl_inv R start goal [(start, 0)] {} 0"
  unfolding lvl_inv_def
proof (intro conjI allI impI ballI)
  fix q v assume "valid_path R start v q \<and> length q = 0 + 1"
  then have "v = start" using valid_path_length1 by fastforce
  then show "v \<in> {} \<or> (v, 0) \<in> set [(start, 0)]" by simp
qed (auto simp: valid_path_def)

lemma lvl_inv_pop:
  assumes inv: "lvl_inv R start goal ((c, d) # rest) closed L"
    and ng: "c \<noteq> goal"
    and ns_all: "c \<notin> closed \<longrightarrow>
      (\<forall>w. R c w \<longrightarrow> w \<in> set ns \<or> w \<in> insert c closed \<or> w \<in> fst ` set rest)"
  shows "\<exists>L'. lvl_inv R start goal (rest @ map (\<lambda>n. (n, Suc d)) ns) (insert c closed) L'"
proof -
  let ?P = "valid_path R start"
  let ?new = "map (\<lambda>n. (n, Suc d)) ns"
  let ?Q = "rest @ ?new"
  let ?V = "insert c closed"
  note i = inv [unfolded lvl_inv_def]
  note E = i [THEN conjunct1, rule_format]
  note S = i [THEN conjunct2, THEN conjunct1]
  note G = i [THEN conjunct2, THEN conjunct2, THEN conjunct1]
  note C = i [THEN conjunct2, THEN conjunct2, THEN conjunct2, THEN conjunct1, rule_format]
  note P5 = i [THEN conjunct2, THEN conjunct2, THEN conjunct2, THEN conjunct2, THEN conjunct1,
      rule_format]
  note P6 = i [THEN conjunct2, THEN conjunct2, THEN conjunct2, THEN conjunct2, THEN conjunct2,
      rule_format]
  have "(c, d) \<in> set ((c, d) # rest)" by simp
  from E [OF this] have lp: "L \<le> d" "d \<le> L + 1" by simp_all
  have rest_ge: "d \<le> snd e" if "e \<in> set rest" for e
    using S that by simp
  have rest_le: "snd e \<le> L + 1" if "e \<in> set rest" for e
  proof -
    from that have "e \<in> set ((c, d) # rest)" by simp
    from E [OF this] show "snd e \<le> L + 1" by simp
  qed
  have new_len: "snd e = Suc d" if "e \<in> set ?new" for e
    using that by auto
  have S': "sorted (map snd ?Q)"
  proof -
    have 1: "sorted (map snd rest)" using S by simp
    have 2: "map snd ?new = map (\<lambda>n. Suc d) ns" by simp
    have 3: "snd x \<le> Suc d" if "x \<in> set rest" for x
      using rest_le [OF that] lp by simp
    have "sorted (map snd rest @ map snd ?new)"
      unfolding 2 sorted_append using 1 3 by (simp add: sorted_const_map)
    then show ?thesis by simp
  qed
  have G': "goal \<notin> ?V" using G ng by simp
  have C': "\<forall>v \<in> ?V. \<forall>w. R v w \<longrightarrow> w \<in> ?V \<or> w \<in> fst ` set ?Q"
  proof (intro ballI allI impI)
    fix v w assume v: "v \<in> ?V" and st: "R v w"
    show "w \<in> ?V \<or> w \<in> fst ` set ?Q"
    proof (cases "v \<in> closed")
      case True
      from C [OF True st] have "w \<in> closed \<or> w \<in> fst ` set ((c, d) # rest)" .
      then show ?thesis by auto
    next
      case False
      with v have vc: "v = c" and "c \<notin> closed" by auto
      with ns_all st have "w \<in> set ns \<or> w \<in> insert c closed \<or> w \<in> fst ` set rest" by blast
      moreover have "w \<in> fst ` set ?new" if "w \<in> set ns"
      proof -
        from that have "(w, Suc d) \<in> set ?new" by simp
        then show ?thesis by (rule rev_image_eqI) simp
      qed
      ultimately show ?thesis by (auto simp: image_Un)
    qed
  qed
  from lp consider (same) "d = L" | (up) "d = L + 1" by linarith
  then show ?thesis
  proof cases
    case same
    have A: "\<forall>e \<in> set ?Q. L \<le> snd e \<and> snd e \<le> L + 1"
    proof
      fix e assume "e \<in> set ?Q"
      then consider "e \<in> set rest" | "e \<in> set ?new" by auto
      then show "L \<le> snd e \<and> snd e \<le> L + 1"
      proof cases
        case 1
        from rest_le [OF 1] rest_ge [OF 1] same show ?thesis by simp
      next
        case 2
        from new_len [OF 2] same show ?thesis by simp
      qed
    qed
    have B5: "\<forall>q v. ?P v q \<and> length q \<le> L \<longrightarrow> v \<in> ?V"
    proof (intro allI impI)
      fix q v assume "?P v q \<and> length q \<le> L"
      then have "v \<in> closed" using P5 [of v q] by simp
      then show "v \<in> ?V" by simp
    qed
    have B6: "\<forall>q v. ?P v q \<and> length q = L + 1 \<longrightarrow> v \<in> ?V \<or> (v, L) \<in> set ?Q"
    proof (intro allI impI)
      fix q v assume "?P v q \<and> length q = L + 1"
      then have "v \<in> closed \<or> (v, L) \<in> set ((c, d) # rest)"
        using P6 [of v q] by simp
      then show "v \<in> ?V \<or> (v, L) \<in> set ?Q" by auto
    qed
    have "lvl_inv R start goal ?Q ?V L"
      unfolding lvl_inv_def by (intro conjI A S' G' C' B5 B6)
    then show ?thesis ..
  next
    case up
    have all_up: "snd e = L + 1" if "e \<in> set ((c, d) # rest)" for e
    proof (cases "e = (c, d)")
      case True then show ?thesis using up by simp
    next
      case False
      with that have r: "e \<in> set rest" by simp
      from rest_ge [OF r] rest_le [OF r] up show ?thesis by simp
    qed
    have A: "\<forall>e \<in> set ?Q. L + 1 \<le> snd e \<and> snd e \<le> L + 1 + 1"
    proof
      fix e assume "e \<in> set ?Q"
      then consider "e \<in> set rest" | "e \<in> set ?new" by auto
      then show "L + 1 \<le> snd e \<and> snd e \<le> L + 1 + 1"
      proof cases
        case 1
        then have "e \<in> set ((c, d) # rest)" by simp
        from all_up [OF this] show ?thesis by simp
      next
        case 2
        from new_len [OF 2] up show ?thesis by simp
      qed
    qed
    have old5: "v \<in> closed" if pq: "?P v q" and len: "length q \<le> L + 1" for q v
    proof (cases "length q \<le> L")
      case True with P5 [of v q] pq show ?thesis by simp
    next
      case False
      with len have "length q = L + 1" by simp
      with P6 [of v q] pq have "v \<in> closed \<or> (v, L) \<in> set ((c, d) # rest)" by simp
      then show ?thesis
      proof
        assume "v \<in> closed" then show ?thesis .
      next
        assume e: "(v, L) \<in> set ((c, d) # rest)"
        from all_up [OF e] show ?thesis by simp
      qed
    qed
    have B5: "\<forall>q v. ?P v q \<and> length q \<le> L + 1 \<longrightarrow> v \<in> ?V"
    proof (intro allI impI)
      fix q v assume "?P v q \<and> length q \<le> L + 1"
      then have "v \<in> closed" using old5 [of v q] by simp
      then show "v \<in> ?V" by simp
    qed
    have B6: "\<forall>q v. ?P v q \<and> length q = L + 1 + 1 \<longrightarrow> v \<in> ?V \<or> (v, L + 1) \<in> set ?Q"
    proof (intro allI impI)
      fix q v assume a: "?P v q \<and> length q = L + 1 + 1"
      then have pq: "?P v q" and len: "length q = L + 1 + 1" by simp_all
      have "2 \<le> length q" using len by simp
      from valid_path_butlast [OF pq this]
      obtain u where u: "?P u (butlast q)" and st: "R u v" by blast
      have "length (butlast q) \<le> L + 1" using len by simp
      from old5 [OF u this] have "u \<in> closed" .
      from C [OF this st] have "v \<in> closed \<or> v \<in> fst ` set ((c, d) # rest)" .
      then show "v \<in> ?V \<or> (v, L + 1) \<in> set ?Q"
      proof
        assume "v \<in> closed" then show ?thesis by simp
      next
        assume "v \<in> fst ` set ((c, d) # rest)"
        then obtain e where e: "e \<in> set ((c, d) # rest)" and v: "v = fst e" by blast
        from all_up [OF e] have l: "snd e = L + 1" .
        show ?thesis
        proof (cases "e = (c, d)")
          case True with v show ?thesis by simp
        next
          case False
          with e have "e \<in> set rest" by simp
          moreover have "e = (v, L + 1)" using v l by (simp add: prod_eq_iff)
          ultimately show ?thesis by simp
        qed
      qed
    qed
    have "lvl_inv R start goal ?Q ?V (L + 1)"
      unfolding lvl_inv_def by (intro conjI A S' G' C' B5 B6)
    then show ?thesis ..
  qed
qed

lemma lvl_inv_empty:
  assumes inv: "lvl_inv R start goal [] closed L"
  shows "\<not> valid_path R start goal q"
proof -
  let ?P = "valid_path R start"
  note i = inv [unfolded lvl_inv_def]
  note G = i [THEN conjunct2, THEN conjunct2, THEN conjunct1]
  note C = i [THEN conjunct2, THEN conjunct2, THEN conjunct2, THEN conjunct1, rule_format]
  note P5 = i [THEN conjunct2, THEN conjunct2, THEN conjunct2, THEN conjunct2, THEN conjunct1,
      rule_format]
  note P6 = i [THEN conjunct2, THEN conjunct2, THEN conjunct2, THEN conjunct2, THEN conjunct2,
      rule_format]
  have all: "?P v q \<Longrightarrow> length q = n \<Longrightarrow> v \<in> closed" for v q n
  proof (induction n arbitrary: v q)
    case 0
    then show ?case by (simp add: valid_path_def)
  next
    case (Suc n)
    show ?case
    proof (cases "Suc n \<le> L")
      case True
      with P5 [of v q] Suc.prems show ?thesis by simp
    next
      case False
      show ?thesis
      proof (cases "Suc n = L + 1")
        case True
        with P6 [of v q] Suc.prems show ?thesis by simp
      next
        case F2: False
        with False have "2 \<le> length q" using Suc.prems by simp
        from valid_path_butlast [OF Suc.prems(1) this]
        obtain u where u: "?P u (butlast q)" and st: "R u v" by blast
        have "length (butlast q) = n" using Suc.prems by simp
        from Suc.IH [OF u this] have "u \<in> closed" .
        from C [OF this st] show ?thesis by simp
      qed
    qed
  qed
  show ?thesis
  proof
    assume "?P goal q"
    from all [OF this refl] G show False by simp
  qed
qed

text \<open>When the goal is at the head of the queue, no path to it has fewer cells.\<close>

lemma lvl_inv_goal:
  assumes inv: "lvl_inv R start goal ((goal, d) # rest) closed L"
    and q: "valid_path R start goal q"
  shows "d + 1 \<le> length q"
proof (rule ccontr)
  note i = inv [unfolded lvl_inv_def]
  note E = i [THEN conjunct1, rule_format]
  note S = i [THEN conjunct2, THEN conjunct1]
  note G = i [THEN conjunct2, THEN conjunct2, THEN conjunct1]
  note P5 = i [THEN conjunct2, THEN conjunct2, THEN conjunct2, THEN conjunct2, THEN conjunct1,
      rule_format]
  note P6 = i [THEN conjunct2, THEN conjunct2, THEN conjunct2, THEN conjunct2, THEN conjunct2,
      rule_format]
  have "(goal, d) \<in> set ((goal, d) # rest)" by simp
  from E [OF this] have lp: "L \<le> d" "d \<le> L + 1" by simp_all
  assume "\<not> d + 1 \<le> length q"
  then have lq: "length q \<le> d" by simp
  show False
  proof (cases "length q \<le> L")
    case True
    from P5 [of goal q] q True G show False by simp
  next
    case False
    from lp False lq have l1: "length q = L + 1" and ld: "d = L + 1" by auto
    from P6 [of goal q] q l1 G have e: "(goal, L) \<in> set ((goal, d) # rest)" by blast
    have "d \<le> L" using S e ld by auto
    with ld show False by simp
  qed
qed

section \<open>The breadth-first search of \<^verbatim>\<open>wumpus3.py\<close> finds a shortest path\<close>

text \<open>One move of the search: onto an adjacent cell of the grid that holds neither a pit
  nor a wumpus.\<close>

definition bfs_step :: "int \<Rightarrow> grid \<Rightarrow> cell \<Rightarrow> cell \<Rightarrow> bool" where
  "bfs_step gs g a b =
     (adjacent a b \<and> b \<in> in_bounds gs \<and>
      (case grid_get g (fst b) (snd b) of Inl e \<Rightarrow> False | Inr k \<Rightarrow> k \<noteq> PIT \<and> k \<noteq> WUMPUS))"

lemma bfs_neighbors_step:
  "bfs_neighbors gs g c = Inr ns \<Longrightarrow> nb \<in> set ns \<longleftrightarrow> bfs_step gs g c nb"
  by (auto simp: bfs_neighbors_mem bfs_step_def split: sum.splits)

definition depths :: "(cell \<times> cell list) list \<Rightarrow> (cell \<times> nat) list" where
  "depths queue = map (\<lambda>e. (fst e, length (snd e))) queue"

lemma bfs_loop_correct:
  assumes "grid_ok gs g"
    and "\<forall>e \<in> set queue. valid_path (bfs_step gs g) start (fst e) (snd e @ [fst e])"
    and "lvl_inv (bfs_step gs g) start goal (depths queue) visited L"
  shows "\<exists>r. bfs_loop gs g goal queue visited = Inr r \<and>
     (if r = [] then \<forall>q. \<not> valid_path (bfs_step gs g) start goal q
      else valid_path (bfs_step gs g) start goal r \<and>
           (\<forall>q. valid_path (bfs_step gs g) start goal q \<longrightarrow> length r \<le> length q))"
  using assms
proof (induction gs g goal queue visited arbitrary: L rule: bfs_loop.induct)
  case (1 gs g goal visited)
  from "1.prems"(3) have "lvl_inv (bfs_step gs g) start goal [] visited L"
    by (simp add: depths_def)
  from lvl_inv_empty [OF this] show ?case by simp
next
  case (2 gs g goal c path queue visited)
  let ?R = "bfs_step gs g"
  have inv: "lvl_inv ?R start goal ((c, length path) # depths queue) visited L"
    using "2.prems"(3) by (simp add: depths_def)
  have cp: "valid_path ?R start c (path @ [c])" using "2.prems"(2) by simp
  have rest_ok: "\<forall>e \<in> set queue. valid_path ?R start (fst e) (snd e @ [fst e])"
    using "2.prems"(2) by simp
  show ?case
  proof (cases "c = goal")
    case True
    have "length (path @ [c]) \<le> length q" if "valid_path ?R start goal q" for q
      using lvl_inv_goal [OF inv [unfolded True] that] by simp
    with True cp show ?thesis by simp
  next
    case False
    note ng = this
    show ?thesis
    proof (cases "c \<in> visited")
      case True
      have "\<exists>L'. lvl_inv ?R start goal (depths queue @ map (\<lambda>n. (n, Suc (length path))) [])
          (insert c visited) L'"
        by (rule lvl_inv_pop [OF inv ng]) (use True in simp)
      then obtain L' where "lvl_inv ?R start goal (depths queue) visited L'"
        using True by (auto simp: insert_absorb)
      from "2.IH"(1) [OF ng True "2.prems"(1) rest_ok this] ng True show ?thesis by simp
    next
      case notin: False
      obtain ns where ns: "bfs_neighbors gs g c = Inr ns"
        using bfs_neighbors_ok [OF "2.prems"(1)] by blast
      let ?queue' = "queue @ map (\<lambda>n. (n, path @ [c])) ns"
      have "\<exists>L'. lvl_inv ?R start goal (depths queue @ map (\<lambda>n. (n, Suc (length path))) ns)
          (insert c visited) L'"
        by (rule lvl_inv_pop [OF inv ng]) (use bfs_neighbors_step [OF ns] in blast)
      moreover have "depths ?queue' = depths queue @ map (\<lambda>n. (n, Suc (length path))) ns"
        by (simp add: depths_def)
      ultimately obtain L' where inv': "lvl_inv ?R start goal (depths ?queue') (insert c visited) L'"
        by auto
      have ok': "\<forall>e \<in> set ?queue'. valid_path ?R start (fst e) (snd e @ [fst e])"
      proof
        fix e assume "e \<in> set ?queue'"
        then consider "e \<in> set queue" | n where "n \<in> set ns" "e = (n, path @ [c])" by auto
        then show "valid_path ?R start (fst e) (snd e @ [fst e])"
        proof cases
          case 1 with rest_ok show ?thesis by blast
        next
          case 2
          from bfs_neighbors_step [OF ns] 2(1) have "?R c n" by blast
          from valid_path_snoc [OF cp this] 2(2) show ?thesis by simp
        qed
      qed
      from "2.IH"(2) [OF ng notin ns "2.prems"(1) ok' inv'] ng notin ns show ?thesis by simp
    qed
  qed
qed

lemma bfs_search_correct:
  assumes "grid_ok gs g"
  shows "\<exists>r. bfs_search gs g start goal = Inr r \<and>
     (if r = [] then \<forall>q. \<not> valid_path (bfs_step gs g) start goal q
      else valid_path (bfs_step gs g) start goal r \<and>
           (\<forall>q. valid_path (bfs_step gs g) start goal q \<longrightarrow> length r \<le> length q))"
  unfolding bfs_search_def
proof (rule bfs_loop_correct [OF assms, where L = 0])
  show "\<forall>e \<in> set [(start, [])]. valid_path (bfs_step gs g) start (fst e) (snd e @ [fst e])"
    by (simp add: valid_path_def)
  show "lvl_inv (bfs_step gs g) start goal (depths [(start, [])]) {} 0"
    using lvl_inv_init [of "bfs_step gs g" start goal] by (simp add: depths_def)
qed

section \<open>The breadth-first search of \<^verbatim>\<open>snake3.py\<close>\<close>

text \<open>
  \<^verbatim>\<open>DIRECTIONS = {'UP': (0, -1), 'DOWN': (0, 1), 'LEFT': (-1, 0), 'RIGHT': (1, 0)}\<close>;
  a \<^verbatim>\<open>for d in DIRECTIONS\<close> loop reads the keys in this order. The module constants
  \<^verbatim>\<open>WIDTH\<close>, \<^verbatim>\<open>HEIGHT\<close> (400) and \<^verbatim>\<open>GRID_SIZE\<close> (20) are the parameters \<open>W\<close>, \<open>H\<close>
  and \<open>sz\<close>.
\<close>

datatype direction = UP | DOWN | LEFT | RIGHT

fun DIRECTIONS :: "direction \<Rightarrow> int \<times> int" where
  "DIRECTIONS UP = (0, -1)"
| "DIRECTIONS DOWN = (0, 1)"
| "DIRECTIONS LEFT = (-1, 0)"
| "DIRECTIONS RIGHT = (1, 0)"

definition direction_keys :: "direction list" where
  "direction_keys = [UP, DOWN, LEFT, RIGHT]"

text \<open>\<^verbatim>\<open>nx, ny = x + DIRECTIONS[d][0] * GRID_SIZE, y + DIRECTIONS[d][1] * GRID_SIZE\<close>\<close>

definition move :: "int \<Rightarrow> cell \<Rightarrow> direction \<Rightarrow> cell" where
  "move sz c d = (fst c + fst (DIRECTIONS d) * sz, snd c + snd (DIRECTIONS d) * sz)"

definition box :: "int \<Rightarrow> int \<Rightarrow> cell set" where
  "box W H = {0..<W} \<times> {0..<H}"

text \<open>
  \<^verbatim>\<open>
  for d in DIRECTIONS:
      nx, ny = ...
      if (nx, ny) not in visited and 0 <= nx < WIDTH and 0 <= ny < HEIGHT
             and (nx, ny) not in self.snake:
          queue.append(((nx, ny), path + [d]))
          visited.add((nx, ny))
  \<close>
\<close>

fun snake_scan ::
  "int \<Rightarrow> int \<Rightarrow> int \<Rightarrow> cell list \<Rightarrow> cell \<Rightarrow> direction list \<Rightarrow> direction list \<Rightarrow>
   (cell \<times> direction list) list \<Rightarrow> cell set \<Rightarrow> (cell \<times> direction list) list \<times> cell set" where
  "snake_scan W H sz snake c path [] queue visited = (queue, visited)"
| "snake_scan W H sz snake c path (d # ds) queue visited =
     (let n = move sz c d in
      if n \<notin> visited \<and> 0 \<le> fst n \<and> fst n < W \<and> 0 \<le> snd n \<and> snd n < H \<and> n \<notin> set snake
      then snake_scan W H sz snake c path ds (queue @ [(n, path @ [d])]) (insert n visited)
      else snake_scan W H sz snake c path ds queue visited)"

lemma finite_box: "finite (box W H)"
  by (simp add: box_def)

lemma snake_scan_measure:
  "snake_scan W H sz snake c path ds queue visited = (q', v') \<Longrightarrow>
   card (box W H - v') + length q' = card (box W H - visited) + length queue"
proof (induction ds arbitrary: queue visited)
  case Nil
  then show ?case by simp
next
  case (Cons d ds)
  let ?n = "move sz c d"
  show ?case
  proof (cases "?n \<notin> visited \<and> 0 \<le> fst ?n \<and> fst ?n < W \<and> 0 \<le> snd ?n \<and> snd ?n < H \<and> ?n \<notin> set snake")
    case True
    with Cons.prems
    have "snake_scan W H sz snake c path ds (queue @ [(?n, path @ [d])]) (insert ?n visited) = (q', v')"
      by (simp add: Let_def)
    from Cons.IH [OF this]
    have 1: "card (box W H - v') + length q' =
        card (box W H - insert ?n visited) + Suc (length queue)" by simp
    have nb: "?n \<in> box W H - visited" using True by (auto simp: box_def mem_Times_iff)
    have fin: "finite (box W H - visited)" using finite_box by simp
    have pos: "0 < card (box W H - visited)"
      using fin nb card_gt_0_iff [of "box W H - visited"] by blast
    have "card (box W H - insert ?n visited) = card (box W H - visited) - 1"
      using nb card_Diff_insert [of ?n "box W H" visited] by simp
    with pos have "Suc (card (box W H - insert ?n visited)) = card (box W H - visited)"
      by simp
    with 1 show ?thesis by simp
  next
    case False
    with Cons.prems have "snake_scan W H sz snake c path ds queue visited = (q', v')"
      by (simp add: Let_def)
    from Cons.IH [OF this] show ?thesis .
  qed
qed

definition snake_measure ::
  "int \<times> int \<times> int \<times> cell list \<times> cell \<times> (cell \<times> direction list) list \<times> cell set \<Rightarrow> nat" where
  "snake_measure = (\<lambda>(W, H, sz, snake, food, queue, visited).
     card (box W H - visited) + length queue)"

text \<open>
  \<^verbatim>\<open>
  def bfs_search(self):
      queue = deque([(self.snake[0], [])])
      visited = set()
      while queue:
          (x, y), path = queue.popleft()
          if (x, y) == self.food:
              return path
          for d in DIRECTIONS: ...
      return []
  \<close>
\<close>

function snake_loop ::
  "int \<Rightarrow> int \<Rightarrow> int \<Rightarrow> cell list \<Rightarrow> cell \<Rightarrow> (cell \<times> direction list) list \<Rightarrow> cell set \<Rightarrow>
   direction list" where
  "snake_loop W H sz snake food [] visited = []"
| "snake_loop W H sz snake food ((c, path) # queue) visited =
     (if c = food then path
      else (case snake_scan W H sz snake c path direction_keys queue visited of
              (q', v') \<Rightarrow> snake_loop W H sz snake food q' v'))"
  by pat_completeness auto
termination
proof (relation "measure snake_measure")
  show "wf (measure snake_measure)" by simp
next
  fix W H sz :: int and snake :: "cell list" and food c :: cell and path :: "direction list"
    and queue :: "(cell \<times> direction list) list" and visited :: "cell set"
    and q' :: "(cell \<times> direction list) list" and v' :: "cell set"
  assume "c \<noteq> food"
    and "(q', v') = snake_scan W H sz snake c path direction_keys queue visited"
  then have "snake_scan W H sz snake c path direction_keys queue visited = (q', v')" by simp
  from snake_scan_measure [OF this]
  show "((W, H, sz, snake, food, q', v'), (W, H, sz, snake, food, (c, path) # queue, visited))
    \<in> measure snake_measure"
    by (simp add: snake_measure_def)
qed

text \<open>\<^verbatim>\<open>self.snake[0]\<close> raises on an empty snake.\<close>

definition snake_bfs_search ::
  "int \<Rightarrow> int \<Rightarrow> int \<Rightarrow> cell list \<Rightarrow> cell \<Rightarrow> error + direction list" where
  "snake_bfs_search W H sz snake food =
     (case snake of
        [] \<Rightarrow> Inl IndexError
      | h # _ \<Rightarrow> Inr (snake_loop W H sz snake food [(h, [])] {}))"

text \<open>One move of the snake's head: a step in one of the four directions onto a cell of
  the board that the snake does not cover.\<close>

definition snake_step :: "int \<Rightarrow> int \<Rightarrow> int \<Rightarrow> cell list \<Rightarrow> cell \<Rightarrow> cell \<Rightarrow> bool" where
  "snake_step W H sz snake a b =
     ((\<exists>d \<in> set direction_keys. b = move sz a d) \<and> b \<in> box W H \<and> b \<notin> set snake)"

text \<open>The cells that a list of moves visits, the first one included.\<close>

fun route :: "int \<Rightarrow> cell \<Rightarrow> direction list \<Rightarrow> cell list" where
  "route sz c [] = [c]"
| "route sz c (d # ds) = c # route sz (move sz c d) ds"

lemma route_nonempty [simp]: "route sz c ds \<noteq> []"
  by (cases ds) auto

lemma length_route [simp]: "length (route sz c ds) = Suc (length ds)"
  by (induction ds arbitrary: c) auto

lemma route_snoc:
  "route sz c (ds @ [d]) = route sz c ds @ [move sz (last (route sz c ds)) d]"
  by (induction ds arbitrary: c) auto

lemma snake_scan_result:
  "snake_scan W H sz snake c path ds queue visited = (q', v') \<Longrightarrow>
   \<exists>new. q' = queue @ map (\<lambda>d. (move sz c d, path @ [d])) new \<and>
         v' = visited \<union> move sz c ` set new \<and>
         set new \<subseteq> set ds \<and>
         (\<forall>d \<in> set new. move sz c d \<in> box W H \<and> move sz c d \<notin> set snake \<and>
              move sz c d \<notin> visited) \<and>
         distinct (map (move sz c) new) \<and>
         (\<forall>d \<in> set ds. move sz c d \<in> box W H \<and> move sz c d \<notin> set snake \<longrightarrow>
              move sz c d \<in> v')"
proof (induction ds arbitrary: queue visited)
  case Nil
  then have "q' = queue @ map (\<lambda>d. (move sz c d, path @ [d])) [] \<and>
         v' = visited \<union> move sz c ` set []" by simp
  then show ?case by (intro exI [of _ "[]"]) simp
next
  case (Cons d ds)
  let ?n = "move sz c d"
  show ?case
  proof (cases "?n \<notin> visited \<and> 0 \<le> fst ?n \<and> fst ?n < W \<and> 0 \<le> snd ?n \<and> snd ?n < H \<and> ?n \<notin> set snake")
    case True
    with Cons.prems
    have "snake_scan W H sz snake c path ds (queue @ [(?n, path @ [d])]) (insert ?n visited) = (q', v')"
      by (simp add: Let_def)
    from Cons.IH [OF this] obtain new where
      q': "q' = (queue @ [(?n, path @ [d])]) @ map (\<lambda>d. (move sz c d, path @ [d])) new"
      and v': "v' = insert ?n visited \<union> move sz c ` set new"
      and sub: "set new \<subseteq> set ds"
      and fresh: "\<forall>d \<in> set new. move sz c d \<in> box W H \<and> move sz c d \<notin> set snake \<and>
              move sz c d \<notin> insert ?n visited"
      and dist: "distinct (map (move sz c) new)"
      and all: "\<forall>d \<in> set ds. move sz c d \<in> box W H \<and> move sz c d \<notin> set snake \<longrightarrow>
              move sz c d \<in> v'"
      by blast
    have nb: "?n \<in> box W H" using True by (auto simp: box_def mem_Times_iff)
    have 1: "q' = queue @ map (\<lambda>d. (move sz c d, path @ [d])) (d # new)" using q' by simp
    have 2: "v' = visited \<union> move sz c ` set (d # new)" using v' by auto
    have 3: "set (d # new) \<subseteq> set (d # ds)" using sub by auto
    have 4: "\<forall>d' \<in> set (d # new). move sz c d' \<in> box W H \<and> move sz c d' \<notin> set snake \<and>
              move sz c d' \<notin> visited"
      using fresh True nb by auto
    have 5: "distinct (map (move sz c) (d # new))" using dist fresh by auto
    have 6: "\<forall>d' \<in> set (d # ds). move sz c d' \<in> box W H \<and> move sz c d' \<notin> set snake \<longrightarrow>
              move sz c d' \<in> v'"
      using all v' by auto
    from 1 2 3 4 5 6 show ?thesis by blast
  next
    case False
    with Cons.prems have "snake_scan W H sz snake c path ds queue visited = (q', v')"
      by (simp add: Let_def)
    from Cons.IH [OF this] obtain new where
      q': "q' = queue @ map (\<lambda>d. (move sz c d, path @ [d])) new"
      and v': "v' = visited \<union> move sz c ` set new"
      and sub: "set new \<subseteq> set ds"
      and fresh: "\<forall>d \<in> set new. move sz c d \<in> box W H \<and> move sz c d \<notin> set snake \<and>
              move sz c d \<notin> visited"
      and dist: "distinct (map (move sz c) new)"
      and all: "\<forall>d \<in> set ds. move sz c d \<in> box W H \<and> move sz c d \<notin> set snake \<longrightarrow>
              move sz c d \<in> v'"
      by blast
    have 3: "set new \<subseteq> set (d # ds)" using sub by auto
    have "?n \<in> box W H \<and> ?n \<notin> set snake \<longrightarrow> ?n \<in> visited"
      using False by (auto simp: box_def mem_Times_iff)
    then have 6: "\<forall>d' \<in> set (d # ds). move sz c d' \<in> box W H \<and> move sz c d' \<notin> set snake \<longrightarrow>
              move sz c d' \<in> v'"
      using all v' by auto
    from q' v' 3 fresh dist 6 show ?thesis by blast
  qed
qed

definition sdepths :: "(cell \<times> direction list) list \<Rightarrow> (cell \<times> nat) list" where
  "sdepths queue = map (\<lambda>e. (fst e, length (snd e))) queue"

lemma snake_loop_correct:
  assumes "\<forall>e \<in> set queue. valid_path (snake_step W H sz snake) start (fst e) (route sz start (snd e))"
    and "lvl_inv (snake_step W H sz snake) start food (sdepths queue) closed L"
    and "insert start visited = closed \<union> fst ` set queue"
  shows "(\<forall>q. valid_path (snake_step W H sz snake) start food q \<longrightarrow>
            valid_path (snake_step W H sz snake) start food
              (route sz start (snake_loop W H sz snake food queue visited)) \<and>
            length (route sz start (snake_loop W H sz snake food queue visited)) \<le> length q) \<and>
         ((\<forall>q. \<not> valid_path (snake_step W H sz snake) start food q) \<longrightarrow>
            snake_loop W H sz snake food queue visited = [])"
  using assms
proof (induction W H sz snake food queue visited arbitrary: closed L rule: snake_loop.induct)
  case (1 W H sz snake food visited)
  from "1.prems"(2) have "lvl_inv (snake_step W H sz snake) start food [] closed L"
    by (simp add: sdepths_def)
  from lvl_inv_empty [OF this] show ?case by simp
next
  case (2 W H sz snake food c path queue visited)
  let ?R = "snake_step W H sz snake"
  have inv: "lvl_inv ?R start food ((c, length path) # sdepths queue) closed L"
    using "2.prems"(2) by (simp add: sdepths_def)
  have cp: "valid_path ?R start c (route sz start path)" using "2.prems"(1) by simp
  have rest_ok: "\<forall>e \<in> set queue. valid_path ?R start (fst e) (route sz start (snd e))"
    using "2.prems"(1) by simp
  show ?case
  proof (cases "c = food")
    case True
    have "length (route sz start path) \<le> length q" if "valid_path ?R start food q" for q
      using lvl_inv_goal [OF inv [unfolded True] that] by simp
    moreover have "valid_path ?R start food (route sz start path)" using cp True by simp
    ultimately show ?thesis using True by auto
  next
    case False
    note ng = this
    obtain q' v' where sc: "snake_scan W H sz snake c path direction_keys queue visited = (q', v')"
      by (cases "snake_scan W H sz snake c path direction_keys queue visited")
    from snake_scan_result [OF sc] obtain new where
      q': "q' = queue @ map (\<lambda>d. (move sz c d, path @ [d])) new"
      and v': "v' = visited \<union> move sz c ` set new"
      and sub: "set new \<subseteq> set direction_keys"
      and fresh: "\<forall>d \<in> set new. move sz c d \<in> box W H \<and> move sz c d \<notin> set snake \<and>
              move sz c d \<notin> visited"
      and all: "\<forall>d \<in> set direction_keys. move sz c d \<in> box W H \<and> move sz c d \<notin> set snake \<longrightarrow>
              move sz c d \<in> v'"
      by blast
    let ?ns = "map (move sz c) new"
    have seen: "insert start visited = closed \<union> insert c (fst ` set queue)"
      using "2.prems"(3) by simp
    have ns_all: "c \<notin> closed \<longrightarrow>
      (\<forall>w. ?R c w \<longrightarrow> w \<in> set ?ns \<or> w \<in> insert c closed \<or> w \<in> fst ` set (sdepths queue))"
    proof (intro impI allI)
      fix w assume "?R c w"
      then obtain d where d: "d \<in> set direction_keys" and w: "w = move sz c d"
        and wb: "w \<in> box W H" and ws: "w \<notin> set snake"
        by (auto simp: snake_step_def)
      from all d w wb ws have "w \<in> v'" by blast
      then have "w \<in> visited \<or> w \<in> set ?ns" using v' by auto
      moreover have "fst ` set (sdepths queue) = fst ` set queue"
        by (force simp: sdepths_def)
      ultimately show "w \<in> set ?ns \<or> w \<in> insert c closed \<or> w \<in> fst ` set (sdepths queue)"
        using seen by auto
    qed
    have "\<exists>L'. lvl_inv ?R start food (sdepths queue @ map (\<lambda>n. (n, Suc (length path))) ?ns)
          (insert c closed) L'"
      by (rule lvl_inv_pop [OF inv ng ns_all])
    moreover have "sdepths q' = sdepths queue @ map (\<lambda>n. (n, Suc (length path))) ?ns"
      by (simp add: sdepths_def q' comp_def)
    ultimately obtain L' where inv': "lvl_inv ?R start food (sdepths q') (insert c closed) L'"
      by auto
    have lastc: "last (route sz start path) = c" using cp by (simp add: valid_path_def)
    have ok': "\<forall>e \<in> set q'. valid_path ?R start (fst e) (route sz start (snd e))"
    proof
      fix e assume "e \<in> set q'"
      then consider "e \<in> set queue" | d where "d \<in> set new" "e = (move sz c d, path @ [d])"
        using q' by auto
      then show "valid_path ?R start (fst e) (route sz start (snd e))"
      proof cases
        case 1 with rest_ok show ?thesis by blast
      next
        case 2
        from 2(1) fresh sub have "?R c (move sz c d)" by (auto simp: snake_step_def)
        from valid_path_snoc [OF cp this] 2(2) lastc show ?thesis
          by (simp add: route_snoc)
      qed
    qed
    have seen': "insert start v' = insert c closed \<union> fst ` set q'"
    proof -
      have "fst ` set q' = fst ` set queue \<union> move sz c ` set new"
        unfolding q' by (auto simp: image_Un image_image)
      with seen v' show ?thesis by auto
    qed
    from "2.IH" [OF ng sc [symmetric] ok' inv' seen'] ng sc show ?thesis by simp
  qed
qed

lemma snake_search_correct:
  "(\<forall>q. valid_path (snake_step W H sz (h # t)) h food q \<longrightarrow>
      valid_path (snake_step W H sz (h # t)) h food
        (route sz h (snake_loop W H sz (h # t) food [(h, [])] {})) \<and>
      length (route sz h (snake_loop W H sz (h # t) food [(h, [])] {})) \<le> length q) \<and>
   ((\<forall>q. \<not> valid_path (snake_step W H sz (h # t)) h food q) \<longrightarrow>
      snake_loop W H sz (h # t) food [(h, [])] {} = [])"
proof (rule snake_loop_correct [where closed = "{}" and L = 0])
  show "\<forall>e \<in> set [(h, [])].
      valid_path (snake_step W H sz (h # t)) h (fst e) (route sz h (snd e))"
    by (simp add: valid_path_def)
  show "lvl_inv (snake_step W H sz (h # t)) h food (sdepths [(h, [])]) {} 0"
    using lvl_inv_init [of "snake_step W H sz (h # t)" h food] by (simp add: sdepths_def)
  show "insert h {} = {} \<union> fst ` set [(h, [])]" by simp
qed

text \<open>A path between two different cells ends with a move onto its last cell.\<close>

lemma valid_path_last_step:
  assumes "valid_path R s v q" and "s \<noteq> v"
  shows "\<exists>a. R a v"
proof -
  have "q \<noteq> []" using assms(1) by (simp add: valid_path_def)
  have "length q \<noteq> 1" using valid_path_length1 [OF assms(1)] assms(2) by auto
  moreover have "length q \<noteq> 0" using \<open>q \<noteq> []\<close> by simp
  ultimately have "2 \<le> length q" by linarith
  from valid_path_butlast [OF assms(1) this] show ?thesis by blast
qed

section \<open>The cells that the searches expand\<close>

text \<open>
  \<open>bfs_expanded\<close> runs the loop of \<^verbatim>\<open>bfs_search\<close> of \<^verbatim>\<open>wumpus3.py\<close> and lists, in order,
  the cells for which the loop over the four directions is entered (the cells added to
  \<^verbatim>\<open>visited\<close>); \<open>snake_expanded\<close> does the same for \<^verbatim>\<open>bfs_search\<close> of \<^verbatim>\<open>snake3.py\<close>.
\<close>

function bfs_expanded ::
  "int \<Rightarrow> grid \<Rightarrow> cell \<Rightarrow> (cell \<times> cell list) list \<Rightarrow> cell set \<Rightarrow> cell list" where
  "bfs_expanded gs g goal [] visited = []"
| "bfs_expanded gs g goal ((c, path) # queue) visited =
     (if c = goal then []
      else if c \<in> visited then bfs_expanded gs g goal queue visited
      else (case bfs_neighbors gs g c of
              Inl e \<Rightarrow> [c]
            | Inr ns \<Rightarrow>
                c # bfs_expanded gs g goal (queue @ map (\<lambda>n. (n, path @ [c])) ns)
                      (insert c visited)))"
  by pat_completeness auto

lemma bfs_measure_skip:
  "c \<in> visited \<Longrightarrow>
   bfs_measure (gs, g, goal, queue, visited) < bfs_measure (gs, g, goal, (c, path) # queue, visited)"
proof -
  assume "c \<in> visited"
  then have "(in_bounds gs \<union> fst ` set queue) - visited
      = (in_bounds gs \<union> fst ` set ((c, path) # queue)) - visited"
    by auto
  then show ?thesis by (simp add: bfs_measure_def)
qed

lemma bfs_measure_expand:
  assumes c: "c \<notin> visited" and ns: "bfs_neighbors gs g c = Inr ns"
  shows "bfs_measure (gs, g, goal, queue @ map (\<lambda>n. (n, p)) ns, insert c visited)
       < bfs_measure (gs, g, goal, (c, path) # queue, visited)"
proof -
  let ?old = "(in_bounds gs \<union> fst ` set ((c, path) # queue)) - visited"
  let ?new = "(in_bounds gs \<union> fst ` set (queue @ map (\<lambda>n. (n, p)) ns)) - insert c visited"
  have fin: "finite ?old" by (simp add: finite_in_bounds)
  have sub: "set ns \<subseteq> in_bounds gs" using ns by (rule bfs_neighbors_in_bounds)
  have "fst ` set (map (\<lambda>n. (n, p)) ns) = set ns" by force
  then have "?new \<subseteq> ?old - {c}" using sub by auto
  moreover have "c \<in> ?old" using c by simp
  ultimately have "?new \<subset> ?old" by blast
  then have "card ?new < card ?old" using fin by (simp add: psubset_card_mono)
  moreover have "length ns \<le> 4" using ns by (rule bfs_neighbors_length)
  ultimately show ?thesis by (simp add: bfs_measure_def)
qed

termination bfs_expanded
  by (relation "measure bfs_measure") (simp_all add: bfs_measure_skip bfs_measure_expand)

lemma bfs_expanded_distinct:
  "distinct (bfs_expanded gs g goal queue visited) \<and>
   set (bfs_expanded gs g goal queue visited) \<inter> visited = {}"
proof (induction gs g goal queue visited rule: bfs_expanded.induct)
  case (1 gs g goal visited)
  show ?case by simp
next
  case (2 gs g goal c path queue visited)
  show ?case
  proof (cases "c = goal")
    case True
    then show ?thesis by simp
  next
    case ng: False
    show ?thesis
    proof (cases "c \<in> visited")
      case True
      with ng "2.IH"(1) show ?thesis by simp
    next
      case nv: False
      show ?thesis
      proof (cases "bfs_neighbors gs g c")
        case (Inl e)
        with ng nv show ?thesis by simp
      next
        case (Inr ns)
        from "2.IH"(2) [OF ng nv Inr] ng nv Inr show ?thesis by auto
      qed
    qed
  qed
qed

function snake_expanded ::
  "int \<Rightarrow> int \<Rightarrow> int \<Rightarrow> cell list \<Rightarrow> cell \<Rightarrow> (cell \<times> direction list) list \<Rightarrow> cell set \<Rightarrow>
   cell list" where
  "snake_expanded W H sz snake food [] visited = []"
| "snake_expanded W H sz snake food ((c, path) # queue) visited =
     (if c = food then []
      else (case snake_scan W H sz snake c path direction_keys queue visited of
              (q', v') \<Rightarrow> c # snake_expanded W H sz snake food q' v'))"
  by pat_completeness auto

lemma snake_measure_step:
  "snake_measure (W, H, sz, snake, food,
       snake_scan W H sz snake c path direction_keys queue visited)
     < snake_measure (W, H, sz, snake, food, (c, path) # queue, visited)"
proof -
  obtain q' v' where sc: "snake_scan W H sz snake c path direction_keys queue visited = (q', v')"
    by (cases "snake_scan W H sz snake c path direction_keys queue visited")
  from snake_scan_measure [OF sc] show ?thesis by (simp add: snake_measure_def sc)
qed

termination snake_expanded
  by (relation "measure snake_measure") (simp_all add: snake_measure_step)

lemma snake_expanded_distinct:
  assumes "distinct (map fst queue)" and "fst ` set queue \<subseteq> visited \<union> set snake"
  shows "distinct (snake_expanded W H sz snake food queue visited) \<and>
         set (snake_expanded W H sz snake food queue visited)
           \<subseteq> fst ` set queue \<union> - (visited \<union> set snake)"
  using assms
proof (induction W H sz snake food queue visited rule: snake_expanded.induct)
  case (1 W H sz snake food visited)
  show ?case by simp
next
  case (2 W H sz snake food c path queue visited)
  show ?case
  proof (cases "c = food")
    case True
    then show ?thesis by simp
  next
    case ng: False
    obtain q' v' where sc: "snake_scan W H sz snake c path direction_keys queue visited = (q', v')"
      by (cases "snake_scan W H sz snake c path direction_keys queue visited")
    from snake_scan_result [OF sc] obtain new where
      q': "q' = queue @ map (\<lambda>d. (move sz c d, path @ [d])) new"
      and v': "v' = visited \<union> move sz c ` set new"
      and fresh: "\<forall>d \<in> set new. move sz c d \<in> box W H \<and> move sz c d \<notin> set snake \<and>
              move sz c d \<notin> visited"
      and dist: "distinct (map (move sz c) new)"
      by blast
    let ?N = "move sz c ` set new"
    let ?T = "snake_expanded W H sz snake food q' v'"
    have cq: "c \<notin> fst ` set queue" and dq: "distinct (map fst queue)"
      using "2.prems"(1) by (auto simp: image_iff)
    have cin: "c \<in> visited \<union> set snake" and qin: "fst ` set queue \<subseteq> visited \<union> set snake"
      using "2.prems"(2) by auto
    have Nout: "?N \<inter> (visited \<union> set snake) = {}" using fresh by auto
    have fq': "fst ` set q' = fst ` set queue \<union> ?N"
      unfolding q' by (auto simp: image_Un image_image)
    have mq': "map fst q' = map fst queue @ map (move sz c) new"
      unfolding q' by (simp add: comp_def)
    have d': "distinct (map fst q')"
      unfolding mq' using dq dist qin Nout by auto
    have s': "fst ` set q' \<subseteq> v' \<union> set snake"
      unfolding fq' v' using qin by auto
    from "2.IH" [OF ng sc [symmetric] d' s']
    have dT: "distinct ?T" and sT: "set ?T \<subseteq> fst ` set q' \<union> - (v' \<union> set snake)"
      by auto
    have "c \<notin> fst ` set q'" unfolding fq' using cq cin Nout by auto
    moreover have "c \<in> v' \<union> set snake" using cin v' by auto
    ultimately have cT: "c \<notin> set ?T" using sT by auto
    have sub: "set ?T \<subseteq> fst ` set queue \<union> - (visited \<union> set snake)"
      using sT Nout unfolding fq' v' by auto
    from ng sc dT cT sub show ?thesis by auto
  qed
qed

section \<open>Shortest paths\<close>

definition detour_grid :: grid where
  "detour_grid =
     [[AGENT, PIT, GOLD, EMPTY, EMPTY, EMPTY, EMPTY, EMPTY, EMPTY, EMPTY],
      [EMPTY, EMPTY, EMPTY, EMPTY, EMPTY, EMPTY, EMPTY, EMPTY, EMPTY, EMPTY],
      [EMPTY, EMPTY, EMPTY, EMPTY, EMPTY, EMPTY, EMPTY, EMPTY, EMPTY, EMPTY],
      [EMPTY, EMPTY, EMPTY, EMPTY, EMPTY, EMPTY, EMPTY, EMPTY, EMPTY, EMPTY],
      [EMPTY, EMPTY, EMPTY, EMPTY, EMPTY, EMPTY, EMPTY, EMPTY, EMPTY, EMPTY],
      [EMPTY, EMPTY, EMPTY, EMPTY, EMPTY, EMPTY, EMPTY, EMPTY, EMPTY, EMPTY],
      [EMPTY, EMPTY, EMPTY, EMPTY, EMPTY, EMPTY, EMPTY, EMPTY, EMPTY, EMPTY],
      [EMPTY, EMPTY, EMPTY, EMPTY, EMPTY, EMPTY, EMPTY, EMPTY, EMPTY, EMPTY],
      [EMPTY, EMPTY, EMPTY, EMPTY, EMPTY, EMPTY, EMPTY, EMPTY, EMPTY, EMPTY],
      [EMPTY, EMPTY, EMPTY, EMPTY, EMPTY, EMPTY, EMPTY, EMPTY, EMPTY, EMPTY]]"

text \<open>
  C1, as stated, fails for \<^verbatim>\<open>wumpus3.py\<close>: its search does not walk onto a pit. On
  \<open>detour_grid\<close> the cells \<open>(0, 0)\<close>, \<open>(0, 1)\<close>, \<open>(0, 2)\<close> are a path of 2 moves through
  cells that hold neither an obstacle nor a wumpus, and the search returns a path of 4
  moves around the pit at \<open>(0, 1)\<close>.
\<close>

theorem bfs_detour_counterexample:
  "bfs_search 10 detour_grid (0, 0) (0, 2) = Inr [(0, 0), (1, 0), (1, 1), (1, 2), (0, 2)] \<and>
   adjacent (0, 0) (0, 1) \<and> adjacent (0, 1) (0, 2) \<and>
   grid_get detour_grid 0 1 = Inr PIT \<and> grid_get detour_grid 0 2 = Inr GOLD"
proof -
  have "bfs_search 10 detour_grid (0, 0) (0, 2) = Inr [(0, 0), (1, 0), (1, 1), (1, 2), (0, 2)]"
    by code_simp
  then show ?thesis
    by (simp add: adjacent_def grid_get_def py_index_def detour_grid_def)
qed

text \<open>
  C1 (amended): a move of the search of \<^verbatim>\<open>wumpus3.py\<close> goes onto an adjacent cell of the
  grid that holds neither a pit nor a wumpus (\<open>bfs_step\<close>); a move of the search of
  \<^verbatim>\<open>snake3.py\<close> goes one tile up, down, left or right onto a cell of the board that the
  snake does not cover (\<open>snake_step\<close>). Whenever the goal can be reached from the start
  by such moves, the search returns a path of such moves from the start to the goal and
  no such path has fewer moves. \<^verbatim>\<open>wumpus3.py\<close> returns the cells of the path, both ends
  included (one more than the moves), on a grid of at least \<^verbatim>\<open>GRID_SIZE\<close> rows and
  columns; \<^verbatim>\<open>snake3.py\<close> returns the moves.
\<close>

theorem bfs_shortest_path:
  "(grid_ok gs g \<and> (\<exists>q. valid_path (bfs_step gs g) start goal q) \<longrightarrow>
      (\<exists>r. bfs_search gs g start goal = Inr r \<and>
            valid_path (bfs_step gs g) start goal r \<and>
            (\<forall>q. valid_path (bfs_step gs g) start goal q \<longrightarrow> length r \<le> length q))) \<and>
   ((\<exists>q. valid_path (snake_step W H sz (h # t)) h food q) \<longrightarrow>
      (\<exists>ds. snake_bfs_search W H sz (h # t) food = Inr ds \<and>
             valid_path (snake_step W H sz (h # t)) h food (route sz h ds) \<and>
             (\<forall>q. valid_path (snake_step W H sz (h # t)) h food q \<longrightarrow>
                  length ds + 1 \<le> length q)))"
proof (intro conjI impI)
  assume a: "grid_ok gs g \<and> (\<exists>q. valid_path (bfs_step gs g) start goal q)"
  then obtain q0 where q0: "valid_path (bfs_step gs g) start goal q0" by blast
  from a bfs_search_correct [of gs g start goal] obtain r where
    r: "bfs_search gs g start goal = Inr r"
    and s: "if r = [] then \<forall>q. \<not> valid_path (bfs_step gs g) start goal q
      else valid_path (bfs_step gs g) start goal r \<and>
           (\<forall>q. valid_path (bfs_step gs g) start goal q \<longrightarrow> length r \<le> length q)"
    by blast
  have "r \<noteq> []" using s q0 by (cases "r = []") auto
  with s r show "\<exists>r. bfs_search gs g start goal = Inr r \<and>
            valid_path (bfs_step gs g) start goal r \<and>
            (\<forall>q. valid_path (bfs_step gs g) start goal q \<longrightarrow> length r \<le> length q)"
    by simp
next
  let ?R = "snake_step W H sz (h # t)"
  let ?ds = "snake_loop W H sz (h # t) food [(h, [])] {}"
  assume "\<exists>q. valid_path ?R h food q"
  then obtain q0 where q0: "valid_path ?R h food q0" by blast
  note c = snake_search_correct [of W H sz h t food, THEN conjunct1, rule_format]
  have 1: "valid_path ?R h food (route sz h ?ds)" using c [OF q0] by simp
  have 2: "\<forall>q. valid_path ?R h food q \<longrightarrow> length ?ds + 1 \<le> length q"
    using c by simp
  have 3: "snake_bfs_search W H sz (h # t) food = Inr ?ds"
    by (simp add: snake_bfs_search_def)
  from 1 2 3 show "\<exists>ds. snake_bfs_search W H sz (h # t) food = Inr ds \<and>
             valid_path ?R h food (route sz h ds) \<and>
             (\<forall>q. valid_path ?R h food q \<longrightarrow> length ds + 1 \<le> length q)"
    by blast
qed

theorem bfs_shortest_path_witness:
  "grid_ok 10 detour_grid \<and>
   (\<exists>q. valid_path (bfs_step 10 detour_grid) (0, 0) (0, 2) q) \<and>
   (\<exists>r. bfs_search 10 detour_grid (0, 0) (0, 2) = Inr r \<and>
         valid_path (bfs_step 10 detour_grid) (0, 0) (0, 2) r \<and>
         (\<forall>q. valid_path (bfs_step 10 detour_grid) (0, 0) (0, 2) q \<longrightarrow> length r \<le> length q)) \<and>
   (\<exists>q. valid_path (snake_step 400 400 20 [(200, 200), (180, 200)]) (200, 200) (220, 200) q) \<and>
   (\<exists>ds. snake_bfs_search 400 400 20 [(200, 200), (180, 200)] (220, 200) = Inr ds \<and>
          valid_path (snake_step 400 400 20 [(200, 200), (180, 200)]) (200, 200) (220, 200)
            (route 20 (200, 200) ds) \<and>
          (\<forall>q. valid_path (snake_step 400 400 20 [(200, 200), (180, 200)]) (200, 200) (220, 200) q
             \<longrightarrow> length ds + 1 \<le> length q))"
proof -
  have a: "grid_ok 10 detour_grid" by (simp add: grid_ok_def detour_grid_def)
  have "valid_path (bfs_step 10 detour_grid) (0, 0) (0, 2)
      [(0, 0), (1, 0), (1, 1), (1, 2), (0, 2)]"
    by (simp add: valid_path_def bfs_step_def adjacent_def in_bounds_def grid_get_def
        py_index_def detour_grid_def)
  then have b: "\<exists>q. valid_path (bfs_step 10 detour_grid) (0, 0) (0, 2) q" ..
  have "valid_path (snake_step 400 400 20 [(200, 200), (180, 200)]) (200, 200) (220, 200)
      [(200, 200), (220, 200)]"
    by (simp add: valid_path_def snake_step_def direction_keys_def move_def box_def)
  then have c: "\<exists>q. valid_path (snake_step 400 400 20 [(200, 200), (180, 200)])
      (200, 200) (220, 200) q" ..
  note t1 = bfs_shortest_path [where gs = 10 and g = detour_grid and start = "(0, 0)"
      and goal = "(0, 2)" and W = 400 and H = 400 and sz = 20 and h = "(200, 200)"
      and t = "[(180, 200)]" and food = "(220, 200)"]
  from t1 a b c show ?thesis by blast
qed

section \<open>Start on the goal, and a goal out of reach\<close>

text \<open>
  C5, as stated, fails for \<^verbatim>\<open>wumpus3.py\<close>: when the start is the goal, the first entry
  taken from the queue is the goal and the search returns \<^verbatim>\<open>path + [(x, y)]\<close>, the list
  of this one cell, not the empty list.
\<close>

theorem bfs_start_is_goal_counterexample:
  "bfs_search 10 detour_grid (0, 0) (0, 0) = Inr [(0, 0)] \<and> [(0 :: int, 0 :: int)] \<noteq> []"
  by (simp add: bfs_search_def)

text \<open>
  C5 (amended): when the start is the goal, the search of \<^verbatim>\<open>wumpus3.py\<close> returns the list
  of this one cell and the search of \<^verbatim>\<open>snake3.py\<close> returns the empty list of moves. On a
  grid of at least \<^verbatim>\<open>GRID_SIZE\<close> rows and columns the search of \<^verbatim>\<open>wumpus3.py\<close> raises
  no exception, and it returns the empty list exactly when no path of its moves leads
  from the start to the goal. The search of \<^verbatim>\<open>snake3.py\<close> of a snake that is not empty
  raises no exception, and it returns the empty list when no path of its moves leads
  from the head to the food.
\<close>

theorem bfs_empty_path:
  "bfs_search gs g start start = Inr [start] \<and>
   (grid_ok gs g \<longrightarrow>
      (\<exists>r. bfs_search gs g start goal = Inr r) \<and>
      (bfs_search gs g start goal = Inr [] \<longleftrightarrow>
         (\<forall>q. \<not> valid_path (bfs_step gs g) start goal q))) \<and>
   snake_bfs_search W H sz (h # t) h = Inr [] \<and>
   (\<exists>ds. snake_bfs_search W H sz (h # t) food = Inr ds) \<and>
   ((\<forall>q. \<not> valid_path (snake_step W H sz (h # t)) h food q) \<longrightarrow>
      snake_bfs_search W H sz (h # t) food = Inr [])"
proof (intro conjI impI)
  show "bfs_search gs g start start = Inr [start]" by (simp add: bfs_search_def)
next
  assume "grid_ok gs g"
  then show "\<exists>r. bfs_search gs g start goal = Inr r"
    using bfs_search_correct [of gs g start goal] by blast
next
  assume ok: "grid_ok gs g"
  from bfs_search_correct [OF ok, of start goal] obtain r where
    r: "bfs_search gs g start goal = Inr r"
    and s: "if r = [] then \<forall>q. \<not> valid_path (bfs_step gs g) start goal q
      else valid_path (bfs_step gs g) start goal r \<and>
           (\<forall>q. valid_path (bfs_step gs g) start goal q \<longrightarrow> length r \<le> length q)"
    by blast
  show "bfs_search gs g start goal = Inr [] \<longleftrightarrow>
      (\<forall>q. \<not> valid_path (bfs_step gs g) start goal q)"
  proof (cases "r = []")
    case True
    with r s show ?thesis by simp
  next
    case False
    with s have "valid_path (bfs_step gs g) start goal r" by simp
    with r False show ?thesis by auto
  qed
next
  show "snake_bfs_search W H sz (h # t) h = Inr []" by (simp add: snake_bfs_search_def)
next
  show "\<exists>ds. snake_bfs_search W H sz (h # t) food = Inr ds"
    by (simp add: snake_bfs_search_def)
next
  assume "\<forall>q. \<not> valid_path (snake_step W H sz (h # t)) h food q"
  with snake_search_correct [of W H sz h t food, THEN conjunct2]
  show "snake_bfs_search W H sz (h # t) food = Inr []"
    by (simp add: snake_bfs_search_def)
qed

theorem bfs_empty_path_witness:
  "grid_ok 10 detour_grid \<and>
   (\<forall>q. \<not> valid_path (bfs_step 10 detour_grid) (0, 0) (0, 1) q) \<and>
   bfs_search 10 detour_grid (0, 0) (0, 1) = Inr [] \<and>
   (\<forall>q. \<not> valid_path (snake_step 400 400 20 [(200, 200), (180, 200)]) (200, 200) (180, 200) q) \<and>
   snake_bfs_search 400 400 20 [(200, 200), (180, 200)] (180, 200) = Inr []"
proof -
  have a: "grid_ok 10 detour_grid" by (simp add: grid_ok_def detour_grid_def)
  have "\<not> bfs_step 10 detour_grid x (0, 1)" for x
    by (simp add: bfs_step_def grid_get_def py_index_def detour_grid_def)
  then have b: "\<forall>q. \<not> valid_path (bfs_step 10 detour_grid) (0, 0) (0, 1) q"
    using valid_path_last_step [of "bfs_step 10 detour_grid" "(0, 0)" "(0, 1)"] by auto
  have "\<not> snake_step 400 400 20 [(200, 200), (180, 200)] x (180, 200)" for x
    by (simp add: snake_step_def)
  then have c: "\<forall>q. \<not> valid_path (snake_step 400 400 20 [(200, 200), (180, 200)])
      (200, 200) (180, 200) q"
    using valid_path_last_step [of "snake_step 400 400 20 [(200, 200), (180, 200)]"
        "(200, 200)" "(180, 200)"] by auto
  note t1 = bfs_empty_path [where gs = 10 and g = detour_grid and start = "(0, 0)"
      and goal = "(0, 1)" and W = 400 and H = 400 and sz = 20 and h = "(200, 200)"
      and t = "[(180, 200)]" and food = "(180, 200)"]
  from t1 a b c show ?thesis by blast
qed

section \<open>Termination\<close>

text \<open>
  C10: both searches are total functions; each call of the loop makes the measure
  \<open>bfs_measure\<close>, \<open>snake_measure\<close> smaller, so the queue is empty or the goal is found
  after finitely many iterations. On a grid of at least \<^verbatim>\<open>GRID_SIZE\<close> rows and columns
  the search of \<^verbatim>\<open>wumpus3.py\<close> returns a list (a path or the empty list), and the search
  of \<^verbatim>\<open>snake3.py\<close> of a snake that is not empty returns a list. No cell is expanded
  twice: the lists of expanded cells have no repetition.
\<close>

theorem bfs_terminates:
  "(grid_ok gs g \<longrightarrow> (\<exists>r. bfs_search gs g start goal = Inr r)) \<and>
   distinct (bfs_expanded gs g goal [(start, [])] {}) \<and>
   (\<exists>ds. snake_bfs_search W H sz (h # t) food = Inr ds) \<and>
   distinct (snake_expanded W H sz (h # t) food [(h, [])] {})"
proof (intro conjI impI)
  assume "grid_ok gs g"
  then show "\<exists>r. bfs_search gs g start goal = Inr r"
    using bfs_search_correct [of gs g start goal] by blast
next
  show "distinct (bfs_expanded gs g goal [(start, [])] {})"
    using bfs_expanded_distinct [of gs g goal "[(start, [])]" "{}"] by blast
next
  show "\<exists>ds. snake_bfs_search W H sz (h # t) food = Inr ds"
    by (simp add: snake_bfs_search_def)
next
  have "distinct (map fst [(h, [] :: direction list)])" by simp
  moreover have "fst ` set [(h, [] :: direction list)] \<subseteq> {} \<union> set (h # t)" by simp
  ultimately show "distinct (snake_expanded W H sz (h # t) food [(h, [])] {})"
    using snake_expanded_distinct [of "[(h, [])]" "{}" "h # t" W H sz food] by blast
qed

theorem bfs_terminates_witness:
  "grid_ok 10 detour_grid \<and>
   (\<exists>r. bfs_search 10 detour_grid (0, 0) (9, 9) = Inr r) \<and>
   distinct (bfs_expanded 10 detour_grid (9, 9) [((0, 0), [])] {})"
proof -
  have a: "grid_ok 10 detour_grid" by (simp add: grid_ok_def detour_grid_def)
  note t1 = bfs_terminates [where gs = 10 and g = detour_grid and start = "(0, 0)"
      and goal = "(9, 9)"]
  from t1 a show ?thesis by blast
qed

section \<open>Teleport pairs of \<^verbatim>\<open>wumpus4.py\<close> (\<^verbatim>\<open>GameManager.initialize_teleports\<close>)\<close>

text \<open>
  \<^verbatim>\<open>
  for r in range(GRID_SIZE):
      for c in range(GRID_SIZE):
          if self.grid[r][c] == TELEPORT:
              teleport_positions.append((r, c))
  \<close>
  \<open>all_cells\<close> lists the cells in the order of the two loops, \<open>find_teleports\<close> reads
  them in this order.
\<close>

definition all_cells :: "int \<Rightarrow> cell list" where
  "all_cells gs = concat (map (\<lambda>r. map (\<lambda>c. (r, c)) [0..gs - 1]) [0..gs - 1])"

fun find_teleports :: "grid \<Rightarrow> cell list \<Rightarrow> error + cell list" where
  "find_teleports g [] = Inr []"
| "find_teleports g ((r, c) # cs) =
     (case grid_get g r c of
        Inl e \<Rightarrow> Inl e
      | Inr k \<Rightarrow>
          (case find_teleports g cs of
             Inl e \<Rightarrow> Inl e
           | Inr ps \<Rightarrow> Inr (if k = TELEPORT then (r, c) # ps else ps)))"

text \<open>
  \<^verbatim>\<open>
  for i in range(0, len(teleport_positions), 2):
      if i + 1 < len(teleport_positions):
          self.teleport_destinations[teleport_positions[i]] = teleport_positions[i+1]
          self.teleport_destinations[teleport_positions[i+1]] = teleport_positions[i]
  \<close>
  The loop takes the positions two at a time and leaves a last single one alone.
\<close>

fun pair_up :: "cell list \<Rightarrow> (cell \<rightharpoonup> cell) \<Rightarrow> (cell \<rightharpoonup> cell)" where
  "pair_up (a # b # rest) m = pair_up rest (m(a \<mapsto> b, b \<mapsto> a))"
| "pair_up [a] m = m"
| "pair_up [] m = m"

text \<open>\<^verbatim>\<open>random.shuffle\<close> is the parameter \<open>shuffle\<close>: it returns some arrangement of its
  argument.\<close>

definition initialize_teleports ::
  "(cell list \<Rightarrow> cell list) \<Rightarrow> int \<Rightarrow> grid \<Rightarrow> error + (cell \<rightharpoonup> cell)" where
  "initialize_teleports shuffle gs g =
     (case find_teleports g (all_cells gs) of
        Inl e \<Rightarrow> Inl e
      | Inr ps \<Rightarrow> Inr (pair_up (shuffle ps) Map.empty))"

lemma set_all_cells: "set (all_cells gs) = in_bounds gs"
  by (auto simp: all_cells_def in_bounds_def)

lemma distinct_all_cells: "distinct (all_cells gs)"
  unfolding all_cells_def
proof (rule distinct_concat)
  show "distinct (map (\<lambda>r. map (Pair r) [0..gs - 1]) [0..gs - 1])"
    by (auto simp: distinct_map inj_on_def)
  show "\<And>ys. ys \<in> set (map (\<lambda>r. map (Pair r) [0..gs - 1]) [0..gs - 1]) \<Longrightarrow> distinct ys"
    by (auto simp: distinct_map inj_on_def)
  show "\<And>ys zs. ys \<in> set (map (\<lambda>r. map (Pair r) [0..gs - 1]) [0..gs - 1]) \<Longrightarrow>
      zs \<in> set (map (\<lambda>r. map (Pair r) [0..gs - 1]) [0..gs - 1]) \<Longrightarrow> ys \<noteq> zs \<Longrightarrow>
      set ys \<inter> set zs = {}"
    by auto
qed

lemma find_teleports_ok:
  assumes "grid_ok gs g" and "set cs \<subseteq> in_bounds gs"
  shows "find_teleports g cs = Inr (filter (\<lambda>c. grid_get g (fst c) (snd c) = Inr TELEPORT) cs)"
  using assms(2)
proof (induction cs)
  case Nil
  show ?case by simp
next
  case (Cons x cs)
  obtain r c where x: "x = (r, c)" by (cases x)
  from Cons.prems x have "(r, c) \<in> in_bounds gs" by simp
  from grid_get_ok [OF assms(1) this] obtain k where k: "grid_get g r c = Inr k" by blast
  from Cons.prems have "set cs \<subseteq> in_bounds gs" by simp
  from Cons.IH [OF this] k show ?case by (simp add: x)
qed

text \<open>A symmetric pairing without fixed points.\<close>

definition pairing :: "(cell \<rightharpoonup> cell) \<Rightarrow> bool" where
  "pairing m = (\<forall>a b. m a = Some b \<longrightarrow> b \<noteq> a \<and> m b = Some a)"

lemma pairing_update:
  assumes "pairing m" and "a \<notin> dom m" and "b \<notin> dom m" and "a \<noteq> b"
  shows "pairing (m(a \<mapsto> b, b \<mapsto> a))"
  unfolding pairing_def
proof (intro allI impI)
  fix x y assume xy: "(m(a \<mapsto> b, b \<mapsto> a)) x = Some y"
  note p = assms(1) [unfolded pairing_def, rule_format]
  show "y \<noteq> x \<and> (m(a \<mapsto> b, b \<mapsto> a)) y = Some x"
  proof (cases "x = a \<or> x = b")
    case True
    with xy assms(4) show ?thesis by auto
  next
    case False
    with xy have mx: "m x = Some y" by simp
    from p [OF mx] have yx: "y \<noteq> x" and my: "m y = Some x" by auto
    from my assms(2,3) have "y \<noteq> a" "y \<noteq> b" by auto
    with yx my show ?thesis by simp
  qed
qed

lemma pair_up_pairing:
  assumes "pairing m" and "distinct xs" and "dom m \<inter> set xs = {}"
  shows "pairing (pair_up xs m) \<and>
         dom (pair_up xs m) = dom m \<union> (set xs - (if even (length xs) then {} else {last xs}))"
  using assms
proof (induction xs m rule: pair_up.induct)
  case (1 a b rest m)
  let ?m = "m(a \<mapsto> b, b \<mapsto> a)"
  from "1.prems" have ab: "a \<noteq> b" "a \<notin> dom m" "b \<notin> dom m"
    and d: "distinct rest" and nr: "a \<notin> set rest" "b \<notin> set rest"
    and dr: "dom m \<inter> set rest = {}"
    by auto
  have p: "pairing ?m" using pairing_update [OF "1.prems"(1) ab(2,3,1)] .
  have dm: "dom ?m = insert a (insert b (dom m))" by auto
  have dj: "dom ?m \<inter> set rest = {}" using dr nr dm by auto
  note ih = "1.IH" [OF p d dj]
  have 1: "pairing (pair_up rest ?m)" using ih by (rule conjunct1)
  have 2: "dom (pair_up rest ?m) = dom ?m \<union> (set rest - (if even (length rest) then {} else {last rest}))"
    using ih by (rule conjunct2)
  have 3: "rest \<noteq> [] \<Longrightarrow> last rest \<in> set rest" by simp
  have 4: "odd (length rest) \<Longrightarrow> rest \<noteq> []" by auto
  have "dom ?m \<union> (set rest - (if even (length rest) then {} else {last rest}))
      = dom m \<union> (set (a # b # rest) - (if even (length (a # b # rest)) then {} else {last (a # b # rest)}))"
  proof (cases "even (length rest)")
    case True
    then show ?thesis using dm by auto
  next
    case False
    with 4 have ne: "rest \<noteq> []" by simp
    with 3 have "last rest \<in> set rest" by simp
    with nr have "last rest \<noteq> a" "last rest \<noteq> b" by auto
    with False ne dm show ?thesis by auto
  qed
  with 1 2 show ?case by simp
next
  case (2 a m)
  then show ?case by auto
next
  case (3 m)
  then show ?case by auto
qed

definition teleport_grid :: grid where
  "teleport_grid =
     [[AGENT, EMPTY, EMPTY, EMPTY, EMPTY, EMPTY, EMPTY, EMPTY, EMPTY, EMPTY],
      [EMPTY, TELEPORT, EMPTY, EMPTY, EMPTY, EMPTY, EMPTY, EMPTY, EMPTY, EMPTY],
      [EMPTY, EMPTY, EMPTY, EMPTY, EMPTY, EMPTY, EMPTY, EMPTY, EMPTY, EMPTY],
      [EMPTY, EMPTY, EMPTY, TELEPORT, EMPTY, EMPTY, EMPTY, EMPTY, EMPTY, EMPTY],
      [EMPTY, EMPTY, EMPTY, EMPTY, EMPTY, EMPTY, EMPTY, EMPTY, EMPTY, EMPTY],
      [EMPTY, EMPTY, TELEPORT, EMPTY, EMPTY, EMPTY, EMPTY, EMPTY, EMPTY, EMPTY],
      [EMPTY, EMPTY, EMPTY, EMPTY, EMPTY, EMPTY, EMPTY, EMPTY, EMPTY, EMPTY],
      [EMPTY, EMPTY, EMPTY, EMPTY, EMPTY, EMPTY, EMPTY, EMPTY, EMPTY, EMPTY],
      [EMPTY, EMPTY, EMPTY, EMPTY, EMPTY, EMPTY, EMPTY, EMPTY, EMPTY, EMPTY],
      [EMPTY, EMPTY, EMPTY, EMPTY, EMPTY, EMPTY, EMPTY, EMPTY, EMPTY, GOLD]]"

text \<open>
  C7: on a grid of at least \<^verbatim>\<open>GRID_SIZE\<close> rows and columns, whatever arrangement the
  shuffle returns, the teleport map is a symmetric pairing without fixed points of
  cells of the grid that hold a teleport; when the number of teleport cells is odd,
  exactly one of them is not in the map, and when it is even all of them are.
\<close>

theorem teleport_pairing:
  assumes "grid_ok gs g" and "\<forall>xs. mset (shuffle xs) = mset xs"
  shows "\<exists>m ps. find_teleports g (all_cells gs) = Inr ps \<and>
     initialize_teleports shuffle gs g = Inr m \<and>
     distinct ps \<and>
     set ps = {c \<in> in_bounds gs. grid_get g (fst c) (snd c) = Inr TELEPORT} \<and>
     (\<forall>a b. m a = Some b \<longrightarrow>
        b \<noteq> a \<and> b \<in> in_bounds gs \<and> grid_get g (fst b) (snd b) = Inr TELEPORT \<and>
        m b = Some a) \<and>
     dom m \<subseteq> set ps \<and>
     (odd (length ps) \<longrightarrow> (\<exists>u \<in> set ps. set ps - dom m = {u})) \<and>
     (even (length ps) \<longrightarrow> dom m = set ps)"
proof -
  let ?ps = "filter (\<lambda>c. grid_get g (fst c) (snd c) = Inr TELEPORT) (all_cells gs)"
  let ?xs = "shuffle ?ps"
  let ?m = "pair_up ?xs Map.empty"
  have f: "find_teleports g (all_cells gs) = Inr ?ps"
    by (rule find_teleports_ok [OF assms(1)]) (simp add: set_all_cells)
  have i: "initialize_teleports shuffle gs g = Inr ?m"
    by (simp add: initialize_teleports_def f)
  have dps: "distinct ?ps" using distinct_all_cells by simp
  have sps: "set ?ps = {c \<in> in_bounds gs. grid_get g (fst c) (snd c) = Inr TELEPORT}"
    by (simp only: set_filter set_all_cells)
  have ms: "mset ?xs = mset ?ps" using assms(2) by simp
  have sxs: "set ?xs = set ?ps" using ms by (rule mset_eq_setD)
  have dxs: "distinct ?xs" using mset_eq_imp_distinct_iff [OF ms] dps by simp
  have lxs: "length ?xs = length ?ps" using ms by (rule mset_eq_length)
  have p0: "pairing Map.empty" by (simp add: pairing_def)
  from pair_up_pairing [OF p0 dxs]
  have pm: "pairing ?m"
    and dm: "dom ?m = set ?xs - (if even (length ?xs) then {} else {last ?xs})"
    by auto
  have sub: "dom ?m \<subseteq> set ?ps" using dm sxs by auto
  have sym: "\<forall>a b. ?m a = Some b \<longrightarrow>
        b \<noteq> a \<and> b \<in> in_bounds gs \<and> grid_get g (fst b) (snd b) = Inr TELEPORT \<and>
        ?m b = Some a"
  proof (intro allI impI)
    fix a b assume ab: "?m a = Some b"
    from pm [unfolded pairing_def, rule_format, OF ab] have 1: "b \<noteq> a" "?m b = Some a" by auto
    then have "b \<in> dom ?m" by auto
    with sub sps have "b \<in> in_bounds gs" "grid_get g (fst b) (snd b) = Inr TELEPORT" by auto
    with 1 show "b \<noteq> a \<and> b \<in> in_bounds gs \<and> grid_get g (fst b) (snd b) = Inr TELEPORT \<and>
        ?m b = Some a" by simp
  qed
  have odd: "odd (length ?ps) \<longrightarrow> (\<exists>u \<in> set ?ps. set ?ps - dom ?m = {u})"
  proof
    assume o: "odd (length ?ps)"
    then have ne: "?xs \<noteq> []" using lxs by auto
    then have l: "last ?xs \<in> set ?xs" by simp
    from o lxs dm have "dom ?m = set ?xs - {last ?xs}" by simp
    with l sxs have "set ?ps - dom ?m = {last ?xs}" by auto
    with l sxs show "\<exists>u \<in> set ?ps. set ?ps - dom ?m = {u}" by blast
  qed
  have even: "even (length ?ps) \<longrightarrow> dom ?m = set ?ps"
    using dm lxs sxs by simp
  from f i dps sps sym sub odd even show ?thesis by blast
qed

theorem teleport_pairing_witness:
  "grid_ok 10 teleport_grid \<and> (\<forall>xs :: cell list. mset (rev xs) = mset xs) \<and>
   (\<exists>m. initialize_teleports rev 10 teleport_grid = Inr m \<and>
        m (5, 2) = Some (3, 3) \<and> m (3, 3) = Some (5, 2) \<and> m (1, 1) = None)"
proof -
  have a: "grid_ok 10 teleport_grid" by (simp add: grid_ok_def teleport_grid_def)
  have b: "\<forall>xs :: cell list. mset (rev xs) = mset xs" by simp
  from teleport_pairing [OF a b] obtain m where
    m: "initialize_teleports rev 10 teleport_grid = Inr m" by blast
  have "find_teleports teleport_grid (all_cells 10) = Inr [(1, 1), (3, 3), (5, 2)]"
    by code_simp
  then have "initialize_teleports rev 10 teleport_grid
      = Inr (pair_up [(5, 2), (3, 3), (1, 1)] Map.empty)"
    by (simp add: initialize_teleports_def)
  with m have "m = pair_up [(5, 2), (3, 3), (1, 1)] Map.empty" by simp
  then have "m (5, 2) = Some (3, 3) \<and> m (3, 3) = Some (5, 2) \<and> m (1, 1) = None" by simp
  with a b m show ?thesis by blast
qed

section \<open>The paths that the A* search returns\<close>



















section \<open>The replay of a path in \<^verbatim>\<open>wumpus4.py\<close> (\<^verbatim>\<open>GameManager.update\<close>)\<close>

text \<open>Python list assignment \<^verbatim>\<open>xs[i] = v\<close>: a negative index counts from the end, out of
  range raises.\<close>

definition py_assign :: "'a list \<Rightarrow> int \<Rightarrow> 'a \<Rightarrow> error + 'a list" where
  "py_assign xs i v =
     (if 0 \<le> i \<and> i < int (length xs) then Inr (xs[nat i := v])
      else if i < 0 \<and> - int (length xs) \<le> i then Inr (xs[nat (int (length xs) + i) := v])
      else Inl IndexError)"

text \<open>\<^verbatim>\<open>grid[r][c] = v\<close>. The rows of the grid are built one by one
  (\<^verbatim>\<open>[[EMPTY for _ in range(GRID_SIZE)] for _ in range(GRID_SIZE)]\<close>), so the assignment
  changes one row only.\<close>

definition grid_set :: "grid \<Rightarrow> int \<Rightarrow> int \<Rightarrow> entity \<Rightarrow> error + grid" where
  "grid_set g r c v =
     (case py_index g r of
        Inl e \<Rightarrow> Inl e
      | Inr row \<Rightarrow>
          (case py_assign row c v of
             Inl e \<Rightarrow> Inl e
           | Inr row' \<Rightarrow> py_assign g r row'))"

text \<open>\<^verbatim>\<open>Animation(start_pos, end_pos, duration, entity_type)\<close>\<close>

datatype anim = Animation (start_pos: cell) (end_pos: cell) (duration: int) (entity_type: entity)

text \<open>
  The attributes of \<^verbatim>\<open>GameManager\<close> that \<^verbatim>\<open>update\<close> reads and writes while a game runs.
  The statistics file, the timer and the recording of frames are left out: they do not
  feed back into these attributes.
\<close>

record game =
  grid :: grid
  agent_pos :: cell
  animations :: "anim list"
  animation :: "anim option"
  path :: "cell list"
  teleport_destinations :: "cell \<rightharpoonup> cell"
  animation_speed :: int
  score :: int
  steps_taken :: int
  gold_collected :: int
  game_over :: bool
  game_won :: bool

text \<open>\<^verbatim>\<open>xs.insert(i, x)\<close> for \<open>i \<ge> 0\<close>\<close>

definition list_insert :: "nat \<Rightarrow> 'a \<Rightarrow> 'a list \<Rightarrow> 'a list" where
  "list_insert i x xs = take i xs @ x # drop i xs"

text \<open>
  The branch of \<^verbatim>\<open>update\<close> for a completed animation of the agent:
  \<^verbatim>\<open>
  new_pos = self.animation.end_pos
  self.grid[self.agent_pos[0]][self.agent_pos[1]] = TRAIL
  self.agent_pos = new_pos
  entity_at_pos = self.grid[new_pos[0]][new_pos[1]]
  if entity_at_pos == GOLD: ...
  elif entity_at_pos == WUMPUS or entity_at_pos == PIT: ...
  elif entity_at_pos == TRAP: ...
  elif entity_at_pos == TELEPORT:
      if new_pos in self.teleport_destinations:
          dest_pos = self.teleport_destinations[new_pos]
          self.animations.insert(0, Animation(new_pos, new_pos, 500, TELEPORT))
          self.animations.insert(1, Animation(new_pos, dest_pos, self.animation_speed, AGENT))
  self.grid[new_pos[0]][new_pos[1]] = AGENT
  self.steps_taken += 1
  \<close>
\<close>

definition on_entity :: "game \<Rightarrow> cell \<Rightarrow> entity \<Rightarrow> game" where
  "on_entity s new_pos entity_at_pos =
     (if entity_at_pos = GOLD then
        s\<lparr>gold_collected := gold_collected s + 1,
          animations := list_insert 0 (Animation new_pos new_pos 500 GOLD) (animations s),
          score := score s + (1000 - steps_taken s * 10),
          game_won := True\<rparr>
      else if entity_at_pos = WUMPUS \<or> entity_at_pos = PIT then s\<lparr>game_over := True\<rparr>
      else if entity_at_pos = TRAP then
        s\<lparr>score := score s - 100,
          animations := list_insert 0 (Animation new_pos new_pos 500 TRAP) (animations s)\<rparr>
      else if entity_at_pos = TELEPORT then
        (case teleport_destinations s new_pos of
           None \<Rightarrow> s
         | Some dest_pos \<Rightarrow>
             s\<lparr>animations :=
                 list_insert 1 (Animation new_pos dest_pos (animation_speed s) AGENT)
                   (list_insert 0 (Animation new_pos new_pos 500 TELEPORT) (animations s))\<rparr>)
      else s)"

definition arrive :: "game \<Rightarrow> cell \<Rightarrow> error + game" where
  "arrive s new_pos =
     (case grid_set (grid s) (fst (agent_pos s)) (snd (agent_pos s)) TRAIL of
        Inl e \<Rightarrow> Inl e
      | Inr g1 \<Rightarrow>
          (case grid_get g1 (fst new_pos) (snd new_pos) of
             Inl e \<Rightarrow> Inl e
           | Inr entity_at_pos \<Rightarrow>
               (let s1 = on_entity (s\<lparr>grid := g1, agent_pos := new_pos\<rparr>) new_pos entity_at_pos in
                case grid_set (grid s1) (fst new_pos) (snd new_pos) AGENT of
                  Inl e \<Rightarrow> Inl e
                | Inr g2 \<Rightarrow> Inr (s1\<lparr>grid := g2, steps_taken := steps_taken s1 + 1\<rparr>))))"

text \<open>
  One call of \<^verbatim>\<open>update\<close> while the game runs, from \<^verbatim>\<open># Process animations\<close> on;
  \<open>completed\<close> is what \<^verbatim>\<open>self.animation.update()\<close> returns, whether the time of the
  current animation is over.
  \<^verbatim>\<open>
  if self.animations:
      if not self.animation:
          self.animation = self.animations.pop(0)
      if self.animation.update():
          if self.animation.entity_type == AGENT: ...
          self.animation = None
  elif self.path and not self.game_over and not self.game_won:
      if len(self.path) > 1:
          current_pos = self.path.pop(0)
          next_pos = self.path[0]
          self.animations.append(Animation(current_pos, next_pos, self.animation_speed, AGENT))
  \<close>
\<close>

definition take_animation :: "game \<Rightarrow> game" where
  "take_animation s =
     (case animation s of
        None \<Rightarrow> s\<lparr>animation := Some (hd (animations s)), animations := tl (animations s)\<rparr>
      | Some a \<Rightarrow> s)"

definition update :: "game \<Rightarrow> bool \<Rightarrow> error + game" where
  "update s completed =
     (if animations s \<noteq> [] then
        (let s0 = take_animation s in
         if completed then
           (case animation s0 of
              None \<Rightarrow> Inr s0
            | Some a \<Rightarrow>
                (if entity_type a = AGENT then
                   (case arrive s0 (end_pos a) of
                      Inl e \<Rightarrow> Inl e
                    | Inr s1 \<Rightarrow> Inr (s1\<lparr>animation := None\<rparr>))
                 else Inr (s0\<lparr>animation := None\<rparr>)))
         else Inr s0)
      else if path s \<noteq> [] \<and> \<not> game_over s \<and> \<not> game_won s then
        (if length (path s) > 1 then
           Inr (s\<lparr>path := tl (path s),
                  animations := animations s @
                    [Animation (hd (path s)) (hd (tl (path s))) (animation_speed s) AGENT]\<rparr>)
         else Inr s)
      else Inr s)"

text \<open>The positions of the agent after each of \<open>n\<close> calls of \<^verbatim>\<open>update\<close> in which the
  current animation is over.\<close>

fun replay :: "nat \<Rightarrow> game \<Rightarrow> error + cell list" where
  "replay 0 s = Inr []"
| "replay (Suc n) s =
     (case update s True of
        Inl e \<Rightarrow> Inl e
      | Inr s' \<Rightarrow> (case replay n s' of Inl e \<Rightarrow> Inl e | Inr ps \<Rightarrow> Inr (agent_pos s' # ps)))"

text \<open>The animation that \<^verbatim>\<open>update\<close> works on, and the ones that wait behind it.\<close>

definition current :: "game \<Rightarrow> anim" where
  "current s = (case animation s of None \<Rightarrow> hd (animations s) | Some a \<Rightarrow> a)"

definition pending :: "game \<Rightarrow> anim list" where
  "pending s = (case animation s of None \<Rightarrow> tl (animations s) | Some a \<Rightarrow> animations s)"

lemma grid_ok_row:
  assumes "grid_ok gs g" and "0 \<le> r" and "r < gs"
  shows "nat r < length g \<and> gs \<le> int (length (g ! nat r))"
proof -
  from assms(1) have len: "gs \<le> int (length g)"
    and rows: "\<forall>row \<in> set (take (nat gs) g). gs \<le> int (length row)"
    by (auto simp: grid_ok_def list_all_iff)
  have "nat r < length (take (nat gs) g)" using assms(2,3) len by simp
  then have "take (nat gs) g ! nat r \<in> set (take (nat gs) g)" by (rule nth_mem)
  moreover have "take (nat gs) g ! nat r = g ! nat r" using assms(2,3) by simp
  ultimately have "gs \<le> int (length (g ! nat r))" using rows by auto
  then show ?thesis using assms(2,3) len by simp
qed

definition put :: "grid \<Rightarrow> cell \<Rightarrow> entity \<Rightarrow> grid" where
  "put g p v = g[nat (fst p) := (g ! nat (fst p))[nat (snd p) := v]]"

lemma grid_set_ok:
  assumes "grid_ok gs g" and "p \<in> in_bounds gs"
  shows "grid_set g (fst p) (snd p) v = Inr (put g p v)"
proof -
  from assms(2) have r: "0 \<le> fst p" "fst p < gs" and c: "0 \<le> snd p" "snd p < gs"
    by (auto simp: in_bounds_def mem_Times_iff)
  from grid_ok_row [OF assms(1) r] have 1: "nat (fst p) < length g"
    and 2: "gs \<le> int (length (g ! nat (fst p)))" by auto
  have a: "py_index g (fst p) = Inr (g ! nat (fst p))" using r 1 by (simp add: py_index_def)
  have b: "py_assign (g ! nat (fst p)) (snd p) v = Inr ((g ! nat (fst p))[nat (snd p) := v])"
    using c 2 by (simp add: py_assign_def)
  have d: "py_assign g (fst p) ((g ! nat (fst p))[nat (snd p) := v]) = Inr (put g p v)"
    using r 1 by (simp add: py_assign_def put_def)
  show ?thesis by (simp add: grid_set_def a b d)
qed

lemma grid_ok_put:
  assumes "grid_ok gs g"
  shows "grid_ok gs (put g p v)"
proof -
  from assms have len: "gs \<le> int (length g)"
    and rows: "\<forall>row \<in> set (take (nat gs) g). gs \<le> int (length row)"
    by (auto simp: grid_ok_def list_all_iff)
  have "gs \<le> int (length row)" if "row \<in> set (take (nat gs) (put g p v))" for row
  proof -
    from that obtain i where i: "i < length (take (nat gs) (put g p v))"
      and row: "row = take (nat gs) (put g p v) ! i"
      by (auto simp: in_set_conv_nth)
    from i have ig: "i < length g" "i < nat gs" by (simp_all add: put_def)
    then have "i < length (take (nat gs) g)" by simp
    then have "take (nat gs) g ! i \<in> set (take (nat gs) g)" by (rule nth_mem)
    moreover have "take (nat gs) g ! i = g ! i" using ig by simp
    ultimately have old: "gs \<le> int (length (g ! i))" using rows by auto
    have "row = put g p v ! i" using row ig by simp
    then have "length row = length (g ! i)"
      using ig by (cases "i = nat (fst p)") (simp_all add: put_def)
    with old show ?thesis by simp
  qed
  then show ?thesis using len by (simp add: grid_ok_def list_all_iff put_def)
qed

lemma grid_get_put:
  assumes "grid_ok gs g" and "p \<in> in_bounds gs" and "q \<in> in_bounds gs"
  shows "grid_get (put g p v) (fst q) (snd q)
       = (if q = p then Inr v else grid_get g (fst q) (snd q))"
proof -
  from assms(2) have p: "0 \<le> fst p" "fst p < gs" "0 \<le> snd p" "snd p < gs"
    by (auto simp: in_bounds_def mem_Times_iff)
  from assms(3) have q: "0 \<le> fst q" "fst q < gs" "0 \<le> snd q" "snd q < gs"
    by (auto simp: in_bounds_def mem_Times_iff)
  have qb: "(fst q, snd q) \<in> in_bounds gs" using assms(3) by simp
  from grid_ok_row [OF assms(1) p(1,2)] have 1: "nat (fst p) < length g"
    and 2: "gs \<le> int (length (g ! nat (fst p)))" by auto
  have new: "grid_get (put g p v) (fst q) (snd q) = Inr (put g p v ! nat (fst q) ! nat (snd q))"
    by (rule grid_get_ok [OF grid_ok_put [OF assms(1)] qb])
  have old: "grid_get g (fst q) (snd q) = Inr (g ! nat (fst q) ! nat (snd q))"
    by (rule grid_get_ok [OF assms(1) qb])
  show ?thesis
  proof (cases "fst q = fst p")
    case True
    note row = this
    have r: "put g p v ! nat (fst q) = (g ! nat (fst p))[nat (snd p) := v]"
      using 1 row by (simp add: put_def)
    show ?thesis
    proof (cases "snd q = snd p")
      case True
      with row have "q = p" by (simp add: prod_eq_iff)
      moreover have "nat (snd p) < length (g ! nat (fst p))" using p 2 by simp
      ultimately show ?thesis using new r by simp
    next
      case False
      then have "nat (snd p) \<noteq> nat (snd q)" using p q by simp
      moreover have "q \<noteq> p" using False by auto
      ultimately show ?thesis using new old r row by simp
    qed
  next
    case False
    then have "nat (fst p) \<noteq> nat (fst q)" using p q by simp
    then have "put g p v ! nat (fst q) = g ! nat (fst q)" by (simp add: put_def)
    moreover have "q \<noteq> p" using False by auto
    ultimately show ?thesis using new old by simp
  qed
qed

lemma on_entity_keeps:
  "agent_pos (on_entity s p k) = agent_pos s"
  "grid (on_entity s p k) = grid s"
  "path (on_entity s p k) = path s"
  "steps_taken (on_entity s p k) = steps_taken s"
  "animation (on_entity s p k) = animation s"
  "animation_speed (on_entity s p k) = animation_speed s"
  "teleport_destinations (on_entity s p k) = teleport_destinations s"
  by (simp_all add: on_entity_def split: option.splits)

text \<open>What \<^verbatim>\<open>update\<close> does when the move of the agent onto \<open>p\<close> is over.\<close>

lemma update_arrive:
  assumes ok: "grid_ok gs (grid s)" and a: "agent_pos s \<in> in_bounds gs"
    and p: "p \<in> in_bounds gs" and ne: "animations s \<noteq> []"
    and cur: "current s = Animation a0 p d0 AGENT"
    and k: "grid_get (put (grid s) (agent_pos s) TRAIL) (fst p) (snd p) = Inr k"
  shows "update s True =
     Inr ((on_entity (s\<lparr>animation := Some (current s), animations := pending s,
                grid := put (grid s) (agent_pos s) TRAIL, agent_pos := p\<rparr>) p k)
            \<lparr>grid := put (put (grid s) (agent_pos s) TRAIL) p AGENT,
             steps_taken := steps_taken s + 1, animation := None\<rparr>)"
proof -
  let ?s0 = "take_animation s"
  have s0: "?s0 = s\<lparr>animation := Some (current s), animations := pending s\<rparr>"
    by (cases "animation s") (simp_all add: take_animation_def current_def pending_def)
  have an: "animation ?s0 = Some (Animation a0 p d0 AGENT)" using s0 cur by simp
  have g0: "grid ?s0 = grid s" and a0: "agent_pos ?s0 = agent_pos s" using s0 by simp_all
  have w1: "grid_set (grid ?s0) (fst (agent_pos ?s0)) (snd (agent_pos ?s0)) TRAIL
      = Inr (put (grid s) (agent_pos s) TRAIL)"
    unfolding g0 a0 by (rule grid_set_ok [OF ok a])
  let ?s1 = "on_entity (?s0\<lparr>grid := put (grid s) (agent_pos s) TRAIL, agent_pos := p\<rparr>) p k"
  have g1: "grid ?s1 = put (grid s) (agent_pos s) TRAIL"
    by (simp add: on_entity_def split: option.splits)
  have st: "steps_taken ?s1 = steps_taken s"
    by (simp add: on_entity_def s0 split: option.splits)
  have w2: "grid_set (grid ?s1) (fst p) (snd p) AGENT
      = Inr (put (put (grid s) (agent_pos s) TRAIL) p AGENT)"
    unfolding g1 by (rule grid_set_ok [OF grid_ok_put [OF ok] p])
  have ar: "arrive ?s0 p = Inr (?s1\<lparr>grid := put (put (grid s) (agent_pos s) TRAIL) p AGENT,
      steps_taken := steps_taken s + 1\<rparr>)"
    unfolding arrive_def w1 using k w2 st by (simp add: Let_def)
  have "update s True = Inr ((?s1\<lparr>grid := put (put (grid s) (agent_pos s) TRAIL) p AGENT,
      steps_taken := steps_taken s + 1\<rparr>)\<lparr>animation := None\<rparr>)"
    unfolding update_def using ne an ar by (simp add: Let_def)
  then show ?thesis by (simp add: s0)
qed

text \<open>What \<^verbatim>\<open>update\<close> does when an animation that is not a move of the agent is over.\<close>

lemma update_effect:
  assumes "animations s \<noteq> []" and "entity_type (current s) \<noteq> AGENT"
  shows "update s True = Inr (s\<lparr>animation := None, animations := pending s\<rparr>)"
proof -
  have s0: "take_animation s = s\<lparr>animation := Some (current s), animations := pending s\<rparr>"
    by (cases "animation s") (simp_all add: take_animation_def current_def pending_def)
  show ?thesis unfolding update_def using assms by (simp add: Let_def s0)
qed

definition replay_grid :: grid where
  "replay_grid =
     [[AGENT, TELEPORT, GOLD, EMPTY, EMPTY, EMPTY, EMPTY, EMPTY, EMPTY, EMPTY],
      [EMPTY, EMPTY, EMPTY, EMPTY, EMPTY, EMPTY, EMPTY, EMPTY, EMPTY, EMPTY],
      [EMPTY, EMPTY, EMPTY, EMPTY, EMPTY, EMPTY, EMPTY, EMPTY, EMPTY, EMPTY],
      [EMPTY, EMPTY, EMPTY, EMPTY, EMPTY, EMPTY, EMPTY, EMPTY, EMPTY, EMPTY],
      [EMPTY, EMPTY, EMPTY, EMPTY, EMPTY, EMPTY, EMPTY, EMPTY, EMPTY, EMPTY],
      [EMPTY, EMPTY, EMPTY, EMPTY, EMPTY, TELEPORT, EMPTY, EMPTY, EMPTY, EMPTY],
      [EMPTY, EMPTY, EMPTY, EMPTY, EMPTY, EMPTY, EMPTY, EMPTY, EMPTY, EMPTY],
      [EMPTY, EMPTY, EMPTY, EMPTY, EMPTY, EMPTY, EMPTY, EMPTY, EMPTY, EMPTY],
      [EMPTY, EMPTY, EMPTY, EMPTY, EMPTY, EMPTY, EMPTY, EMPTY, EMPTY, EMPTY],
      [EMPTY, EMPTY, EMPTY, EMPTY, EMPTY, EMPTY, EMPTY, EMPTY, EMPTY, EMPTY]]"

definition replay_start :: game where
  "replay_start =
     \<lparr>grid = replay_grid, agent_pos = (0, 0), animations = [], animation = None,
      path = [(0, 0), (0, 1), (0, 2)],
      teleport_destinations = [(0, 1) \<mapsto> (5, 5), (5, 5) \<mapsto> (0, 1)],
      animation_speed = 300, score = 0, steps_taken = 0, gold_collected = 0,
      game_over = False, game_won = False\<rparr>"

text \<open>
  C9, as stated, fails in its last part. On \<open>replay_grid\<close> the teleports at \<open>(0, 1)\<close> and
  \<open>(5, 5)\<close> are a pair and the path goes through \<open>(0, 1)\<close>. The agent arrives at
  \<open>(0, 1)\<close>, then at \<open>(5, 5)\<close>; there the same branch of \<^verbatim>\<open>update\<close> sends it back to
  \<open>(0, 1)\<close>, and the next move of the path starts from \<open>(0, 1)\<close>, not from \<open>(5, 5)\<close>.
\<close>

theorem replay_bounce_counterexample:
  "replay 8 replay_start =
     Inr [(0, 0), (0, 1), (0, 1), (5, 5), (5, 5), (0, 1), (0, 1), (0, 2)]"
  by code_simp

text \<open>
  C9 (amended): when a move of the agent onto a teleport cell \<open>p\<close> with the paired
  destination \<open>dest\<close> is over, \<^verbatim>\<open>update\<close> records the agent at \<open>p\<close> and puts the teleport
  animation and exactly one move of the agent from \<open>p\<close> to \<open>dest\<close>, in this order, in
  front of the animations that wait. When these two are over, the agent is recorded at
  \<open>dest\<close> and \<open>p\<close> holds a trail. The replay does not go on from \<open>dest\<close>: when \<open>dest\<close>
  is a teleport cell paired with \<open>p\<close>, the same branch puts a teleport animation and a
  move of the agent from \<open>dest\<close> back to \<open>p\<close> in front of the animations that wait, and
  the path is as it was.
\<close>

theorem teleport_arrival:
  assumes "grid_ok gs (grid s)" and "agent_pos s \<in> in_bounds gs" and "p \<in> in_bounds gs"
    and "dest \<in> in_bounds gs" and "p \<noteq> agent_pos s" and "dest \<noteq> p"
    and "animations s \<noteq> []" and "current s = Animation a0 p d0 AGENT"
    and "grid_get (grid s) (fst p) (snd p) = Inr TELEPORT"
    and "teleport_destinations s p = Some dest"
  shows "\<exists>s1 s2 s3.
     update s True = Inr s1 \<and> agent_pos s1 = p \<and> animation s1 = None \<and>
     animations s1 = Animation p p 500 TELEPORT #
                     Animation p dest (animation_speed s) AGENT # pending s \<and>
     grid_get (grid s1) (fst p) (snd p) = Inr AGENT \<and>
     steps_taken s1 = steps_taken s + 1 \<and> path s1 = path s \<and>
     update s1 True = Inr s2 \<and> agent_pos s2 = p \<and>
     animations s2 = Animation p dest (animation_speed s) AGENT # pending s \<and>
     update s2 True = Inr s3 \<and> agent_pos s3 = dest \<and>
     grid_get (grid s3) (fst p) (snd p) = Inr TRAIL \<and>
     grid_get (grid s3) (fst dest) (snd dest) = Inr AGENT \<and>
     steps_taken s3 = steps_taken s + 2 \<and> path s3 = path s \<and>
     (grid_get (grid s) (fst dest) (snd dest) = Inr TELEPORT \<and>
      teleport_destinations s dest = Some p \<and> dest \<noteq> agent_pos s \<longrightarrow>
        animations s3 = Animation dest dest 500 TELEPORT #
                        Animation dest p (animation_speed s) AGENT # pending s)"
proof -
  note ok = assms(1) and a = assms(2) and p = assms(3) and dst = assms(4)
  let ?g1 = "put (grid s) (agent_pos s) TRAIL"
  let ?T = "Animation p p 500 TELEPORT"
  let ?M = "Animation p dest (animation_speed s) AGENT"
  have k1: "grid_get ?g1 (fst p) (snd p) = Inr TELEPORT"
    using grid_get_put [OF ok a p, of TRAIL] assms(5,9) by simp
  let ?s1 = "(on_entity (s\<lparr>animation := Some (current s), animations := pending s,
                grid := ?g1, agent_pos := p\<rparr>) p TELEPORT)
            \<lparr>grid := put ?g1 p AGENT, steps_taken := steps_taken s + 1, animation := None\<rparr>"
  have u1: "update s True = Inr ?s1"
    by (rule update_arrive [OF ok a p assms(7,8) k1])
  have an1: "animations ?s1 = ?T # ?M # pending s"
    using assms(10) by (simp add: on_entity_def list_insert_def)
  have ap1: "agent_pos ?s1 = p" using assms(10) by (simp add: on_entity_def)
  have no1: "animation ?s1 = None" by simp
  have gr1: "grid ?s1 = put ?g1 p AGENT" by simp
  have st1: "steps_taken ?s1 = steps_taken s + 1" by simp
  have pa1: "path ?s1 = path s" using assms(10) by (simp add: on_entity_def)
  have td1: "teleport_destinations ?s1 = teleport_destinations s"
    using assms(10) by (simp add: on_entity_def)
  have sp1: "animation_speed ?s1 = animation_speed s"
    using assms(10) by (simp add: on_entity_def)
  have ok1: "grid_ok gs (grid ?s1)" unfolding gr1 by (intro grid_ok_put ok)
  have gp1: "grid_get (grid ?s1) (fst p) (snd p) = Inr AGENT"
    unfolding gr1 using grid_get_put [OF grid_ok_put [OF ok] p p, of "agent_pos s" TRAIL AGENT]
    by simp
  let ?s2 = "?s1\<lparr>animation := None, animations := pending ?s1\<rparr>"
  have cu1: "current ?s1 = ?T" using an1 no1 by (simp add: current_def)
  have pe1: "pending ?s1 = ?M # pending s" using an1 no1 by (simp add: pending_def)
  have u2: "update ?s1 True = Inr ?s2"
    by (rule update_effect) (simp_all add: an1 cu1)
  have an2: "animations ?s2 = ?M # pending s" using pe1 by simp
  have ap2: "agent_pos ?s2 = p" using ap1 by simp
  have gr2: "grid ?s2 = put ?g1 p AGENT" by simp
  have ok2: "grid_ok gs (grid ?s2)" unfolding gr2 by (intro grid_ok_put ok)
  have cu2: "current ?s2 = ?M" using an2 by (simp add: current_def)
  have pe2: "pending ?s2 = pending s" using an2 by (simp add: pending_def)
  have ne2: "animations ?s2 \<noteq> []" using an2 by simp
  have a2: "agent_pos ?s2 \<in> in_bounds gs" using ap2 p by simp
  let ?g3 = "put (put ?g1 p AGENT) p TRAIL"
  have okA: "grid_ok gs (put ?g1 p AGENT)" by (intro grid_ok_put ok)
  have kd: "grid_get ?g3 (fst dest) (snd dest) = grid_get (grid s) (fst dest) (snd dest)"
    if "dest \<noteq> agent_pos s"
    using grid_get_put [OF okA p dst, of TRAIL]
      grid_get_put [OF grid_ok_put [OF ok] p dst, of "agent_pos s" TRAIL AGENT]
      grid_get_put [OF ok a dst, of TRAIL] assms(6) that by simp
  obtain k where k: "grid_get ?g3 (fst dest) (snd dest) = Inr k"
    using grid_get_ok [OF grid_ok_put [OF okA], of "fst dest" "snd dest" p TRAIL] dst by auto
  have k3: "grid_get (put (grid ?s2) (agent_pos ?s2) TRAIL) (fst dest) (snd dest) = Inr k"
    unfolding gr2 ap2 by (rule k)
  let ?s3 = "(on_entity (?s2\<lparr>animation := Some (current ?s2), animations := pending ?s2,
                grid := put (grid ?s2) (agent_pos ?s2) TRAIL, agent_pos := dest\<rparr>) dest k)
            \<lparr>grid := put (put (grid ?s2) (agent_pos ?s2) TRAIL) dest AGENT,
             steps_taken := steps_taken ?s2 + 1, animation := None\<rparr>"
  have u3: "update ?s2 True = Inr ?s3"
    by (rule update_arrive [OF ok2 a2 dst ne2 cu2 k3])
  have ap3: "agent_pos ?s3 = dest" by (simp add: on_entity_def split: option.splits)
  have gr3: "grid ?s3 = put ?g3 dest AGENT" by (simp add: on_entity_keeps)
  have okT: "grid_ok gs ?g3" by (intro grid_ok_put ok)
  have gp3: "grid_get (grid ?s3) (fst p) (snd p) = Inr TRAIL"
    unfolding gr3 using grid_get_put [OF okT dst p, of AGENT] grid_get_put [OF okA p p, of TRAIL]
      assms(6) by simp
  have gd3: "grid_get (grid ?s3) (fst dest) (snd dest) = Inr AGENT"
    unfolding gr3 using grid_get_put [OF okT dst dst, of AGENT] by simp
  have st3: "steps_taken ?s3 = steps_taken s + 2" by simp
  have pa3: "path ?s3 = path s" using pa1 by (simp add: on_entity_def split: option.splits)
  have bounce: "animations ?s3 = Animation dest dest 500 TELEPORT #
                        Animation dest p (animation_speed s) AGENT # pending s"
    if b: "grid_get (grid s) (fst dest) (snd dest) = Inr TELEPORT \<and>
      teleport_destinations s dest = Some p \<and> dest \<noteq> agent_pos s"
  proof -
    from b kd k have "k = TELEPORT" by simp
    moreover from b have "teleport_destinations s dest = Some p" by simp
    ultimately show ?thesis using pe2 assms(10)
      by (simp add: on_entity_def list_insert_def)
  qed
  from u1 ap1 no1 an1 gp1 st1 pa1 u2 ap2 an2 u3 ap3 gp3 gd3 st3 pa3 bounce
  show ?thesis by blast
qed

definition replay_moving :: game where
  "replay_moving =
     \<lparr>grid = replay_grid, agent_pos = (0, 0),
      animations = [Animation (0, 0) (0, 1) 300 AGENT], animation = None,
      path = [(0, 1), (0, 2)],
      teleport_destinations = [(0, 1) \<mapsto> (5, 5), (5, 5) \<mapsto> (0, 1)],
      animation_speed = 300, score = 0, steps_taken = 0, gold_collected = 0,
      game_over = False, game_won = False\<rparr>"

theorem teleport_arrival_witness:
  "grid_ok 10 (grid replay_moving) \<and> agent_pos replay_moving \<in> in_bounds 10 \<and>
   (0, 1) \<in> in_bounds 10 \<and> (5, 5) \<in> in_bounds 10 \<and>
   animations replay_moving \<noteq> [] \<and>
   current replay_moving = Animation (0, 0) (0, 1) 300 AGENT \<and>
   grid_get (grid replay_moving) 0 1 = Inr TELEPORT \<and>
   teleport_destinations replay_moving (0, 1) = Some (5, 5) \<and>
   (\<exists>s1 s2 s3.
      update replay_moving True = Inr s1 \<and> agent_pos s1 = (0, 1) \<and>
      animations s1 = [Animation (0, 1) (0, 1) 500 TELEPORT, Animation (0, 1) (5, 5) 300 AGENT] \<and>
      update s1 True = Inr s2 \<and> update s2 True = Inr s3 \<and> agent_pos s3 = (5, 5) \<and>
      animations s3 = [Animation (5, 5) (5, 5) 500 TELEPORT, Animation (5, 5) (0, 1) 300 AGENT])"
proof -
  have h1: "grid_ok 10 (grid replay_moving)"
    by (simp add: replay_moving_def grid_ok_def replay_grid_def)
  have h2: "agent_pos replay_moving \<in> in_bounds 10"
    by (simp add: replay_moving_def in_bounds_def)
  have h3: "(0, 1) \<in> in_bounds 10" by (simp add: in_bounds_def)
  have h4: "(5, 5) \<in> in_bounds 10" by (simp add: in_bounds_def)
  have h5: "(0 :: int, 1 :: int) \<noteq> agent_pos replay_moving" by (simp add: replay_moving_def)
  have h6: "(5 :: int, 5 :: int) \<noteq> (0, 1)" by simp
  have h7: "animations replay_moving \<noteq> []" by (simp add: replay_moving_def)
  have h8: "current replay_moving = Animation (0, 0) (0, 1) 300 AGENT"
    by (simp add: replay_moving_def current_def)
  have h9: "grid_get (grid replay_moving) (fst (0 :: int, 1 :: int)) (snd (0 :: int, 1 :: int))
      = Inr TELEPORT"
    by (simp add: replay_moving_def replay_grid_def grid_get_def py_index_def)
  have h10: "teleport_destinations replay_moving (0, 1) = Some (5, 5)"
    by (simp add: replay_moving_def)
  have b: "grid_get (grid replay_moving) (fst (5 :: int, 5 :: int)) (snd (5 :: int, 5 :: int))
        = Inr TELEPORT \<and>
      teleport_destinations replay_moving (5, 5) = Some (0, 1) \<and>
      (5, 5) \<noteq> agent_pos replay_moving"
    by (simp add: replay_moving_def replay_grid_def grid_get_def py_index_def)
  have pe: "pending replay_moving = []" by (simp add: replay_moving_def pending_def)
  have sp: "animation_speed replay_moving = 300" by (simp add: replay_moving_def)
  from teleport_arrival [OF h1 h2 h3 h4 h5 h6 h7 h8 h9 h10] obtain s1 s2 s3 where
    c: "update replay_moving True = Inr s1 \<and> agent_pos s1 = (0, 1) \<and> animation s1 = None \<and>
     animations s1 = Animation (0, 1) (0, 1) 500 TELEPORT #
                     Animation (0, 1) (5, 5) (animation_speed replay_moving) AGENT #
                     pending replay_moving \<and>
     grid_get (grid s1) (fst (0 :: int, 1 :: int)) (snd (0 :: int, 1 :: int)) = Inr AGENT \<and>
     steps_taken s1 = steps_taken replay_moving + 1 \<and> path s1 = path replay_moving \<and>
     update s1 True = Inr s2 \<and> agent_pos s2 = (0, 1) \<and>
     animations s2 = Animation (0, 1) (5, 5) (animation_speed replay_moving) AGENT #
                     pending replay_moving \<and>
     update s2 True = Inr s3 \<and> agent_pos s3 = (5, 5) \<and>
     grid_get (grid s3) (fst (0 :: int, 1 :: int)) (snd (0 :: int, 1 :: int)) = Inr TRAIL \<and>
     grid_get (grid s3) (fst (5 :: int, 5 :: int)) (snd (5 :: int, 5 :: int)) = Inr AGENT \<and>
     steps_taken s3 = steps_taken replay_moving + 2 \<and> path s3 = path replay_moving \<and>
     (grid_get (grid replay_moving) (fst (5 :: int, 5 :: int)) (snd (5 :: int, 5 :: int))
        = Inr TELEPORT \<and>
      teleport_destinations replay_moving (5, 5) = Some (0, 1) \<and>
      (5, 5) \<noteq> agent_pos replay_moving \<longrightarrow>
        animations s3 = Animation (5, 5) (5, 5) 500 TELEPORT #
                        Animation (5, 5) (0, 1) (animation_speed replay_moving) AGENT #
                        pending replay_moving)"
    by blast
  from c b have 1: "update replay_moving True = Inr s1" and 2: "agent_pos s1 = (0, 1)"
    and 3: "animations s1 = [Animation (0, 1) (0, 1) 500 TELEPORT, Animation (0, 1) (5, 5) 300 AGENT]"
    and 4: "update s1 True = Inr s2" and 5: "update s2 True = Inr s3"
    and 6: "agent_pos s3 = (5, 5)"
    and 7: "animations s3 = [Animation (5, 5) (5, 5) 500 TELEPORT, Animation (5, 5) (0, 1) 300 AGENT]"
    by (simp_all add: pe sp)
  from 1 2 3 4 5 6 7 have "\<exists>s1 s2 s3.
      update replay_moving True = Inr s1 \<and> agent_pos s1 = (0, 1) \<and>
      animations s1 = [Animation (0, 1) (0, 1) 500 TELEPORT, Animation (0, 1) (5, 5) 300 AGENT] \<and>
      update s1 True = Inr s2 \<and> update s2 True = Inr s3 \<and> agent_pos s3 = (5, 5) \<and>
      animations s3 = [Animation (5, 5) (5, 5) 500 TELEPORT, Animation (5, 5) (0, 1) 300 AGENT]"
    by blast
  with h1 h2 h3 h4 h7 h8 h9 h10 show ?thesis by simp
qed

section \<open>Grid generation\<close>




subsection \<open>\<^verbatim>\<open>Level.find_empty_position\<close> and \<^verbatim>\<open>Level.generate_grid\<close> of \<^verbatim>\<open>wumpus4.py\<close>\<close>







subsection \<open>\<^verbatim>\<open>generate_custom_grid\<close> of \<^verbatim>\<open>wumpus3.py\<close>\<close>










subsection \<open>Layouts\<close>






subsection \<open>The positions that \<^verbatim>\<open>find_empty_position\<close> returns\<close>





subsection \<open>\<^verbatim>\<open>generate_grid\<close> of \<^verbatim>\<open>wumpus4.py\<close>\<close>


subsection \<open>\<^verbatim>\<open>generate_custom_grid\<close> of \<^verbatim>\<open>wumpus3.py\<close>\<close>







subsection \<open>Placements that overlap, and placements that do not\<close>






end
